theory Spec2Isabelle
  imports Main
begin

section \<open>Constrained clustering: constraints to labels\<close>

text \<open>
  A shallow embedding of \<^verbatim>\<open>src/main.py\<close>. Sample indices, labels and the kind column
  of the constraint table are natural numbers (row indices of numpy arrays); entries of the
  similarity matrix are integers (the source stores integer-valued counts in a float array).
  A Python exception is a value of \<open>error\<close>, and a function that can raise returns
  \<open>error + 'a\<close> with \<open>Inl\<close> for the exception.
\<close>

datatype error = ValueError | IndexError | AssertionError

subsection \<open>The numpy operations the source uses\<close>

text \<open>\<^verbatim>\<open>np.unique(a)\<close>: the sorted distinct values of \<open>a\<close>.\<close>

definition np_unique :: "nat list \<Rightarrow> nat list" where
  "np_unique a = sort (remdups a)"

text \<open>\<^verbatim>\<open>a[mask]\<close> for a boolean mask of the length of \<open>a\<close>.\<close>

definition mask_select :: "'a list \<Rightarrow> bool list \<Rightarrow> 'a list" where
  "mask_select a bmask = map fst (filter snd (zip a bmask))"

text \<open>\<^verbatim>\<open>np.any(mask)\<close> and \<^verbatim>\<open>np.sum(mask)\<close> for a boolean array.\<close>

definition np_any :: "bool list \<Rightarrow> bool" where
  "np_any bmask = (True \<in> set bmask)"

definition np_sum_bool :: "bool list \<Rightarrow> nat" where
  "np_sum_bool bmask = length (filter id bmask)"

text \<open>
  \<^verbatim>\<open>ismember(a, b)\<close>: start from zeros of the shape of \<open>a\<close>, for every element of
  \<open>b\<close> set the positions where \<open>a\<close> equals it to one, return the positions that are positive.
\<close>

definition ismember :: "nat list \<Rightarrow> nat list \<Rightarrow> bool list" where
  "ismember a b =
     map (\<lambda>m. m > 0)
       (fold (\<lambda>element memberInd. map (\<lambda>(x, m). if x = element then 1 else m) (zip a memberInd))
          b (map (\<lambda>_. 0::nat) a))"

text \<open>
  \<^verbatim>\<open>translate_to_counting_numbers(a)\<close>: compare every element with every unique
  element, multiply the boolean block by \<^verbatim>\<open>arange(uniqueElements.size)\<close> and sum each row.
\<close>

definition translate_to_counting_numbers :: "nat list \<Rightarrow> nat list" where
  "translate_to_counting_numbers a =
     (let uniqueElements = np_unique a;
          boolBlock = map (\<lambda>x. map (\<lambda>u. x = u) uniqueElements) a;
          newValueInMatrix =
            map (\<lambda>row. map (\<lambda>(b, j). (if b then 1 else 0) * j)
                           (zip row [0..<length uniqueElements])) boolBlock
      in map sum_list newValueInMatrix)"

subsection \<open>The constraint store and its queries: class \<^verbatim>\<open>ConstrainedClustering\<close>\<close>

text \<open>A row of the constraint table is (first sample, second sample, kind), kind 0 for cannot-link, 1 for must-link.\<close>

type_synonym constraint = "nat \<times> nat \<times> nat"

record store =
  ML_pairs :: "(nat \<times> nat) list"
  CL_pairs :: "(nat \<times> nat) list"
  constrainedSamps :: "nat list"

definition constraints_by_value :: "constraint list \<Rightarrow> nat \<Rightarrow> (nat \<times> nat) list" where
  "constraints_by_value constraintMat consVal =
     map (\<lambda>(i, j, v). (i, j)) (filter (\<lambda>(i, j, v). v = consVal) constraintMat)"

text \<open>
  \<^verbatim>\<open>__init__\<close>: each block is followed by its column-swapped copy;
  \<^verbatim>\<open>constraintMat.reshape(-1,1)\<close> is the whole table, all three columns, row by row.
\<close>

definition ConstrainedClustering_init :: "constraint list \<Rightarrow> store" where
  "ConstrainedClustering_init constraintMat =
     (let ML0 = constraints_by_value constraintMat 1;
          CL0 = constraints_by_value constraintMat 0
      in \<lparr> ML_pairs = ML0 @ map prod.swap ML0,
           CL_pairs = CL0 @ map prod.swap CL0,
           constrainedSamps = np_unique (concat (map (\<lambda>(i, j, v). [i, j, v]) constraintMat)) \<rparr>)"

definition other_sample_in_pair :: "store \<Rightarrow> nat list \<Rightarrow> nat \<Rightarrow> error + nat list" where
  "other_sample_in_pair self grp consVal =
     (if \<not> (consVal = 0 \<or> consVal = 1) then Inl AssertionError
      else
        let constraintBlock = (if consVal = 0 then CL_pairs self else ML_pairs self);
            involvedInConstraint = ismember (map fst constraintBlock) grp
        in Inr (map snd (mask_select constraintBlock involvedInConstraint)))"

definition is_CL_violated :: "store \<Rightarrow> nat list \<Rightarrow> error + bool" where
  "is_CL_violated self grp =
     (case other_sample_in_pair self grp 0 of
        Inl e \<Rightarrow> Inl e
      | Inr otherCLsamp \<Rightarrow> Inr (np_any (ismember grp otherCLsamp)))"

definition number_of_constraints :: "store \<Rightarrow> nat list \<Rightarrow> nat list \<Rightarrow> nat \<Rightarrow> error + nat" where
  "number_of_constraints self group1 group2 consVal =
     (case other_sample_in_pair self group1 consVal of
        Inl e \<Rightarrow> Inl e
      | Inr otherSamp1 \<Rightarrow> Inr (np_sum_bool (ismember group2 otherSamp1)))"

subsection \<open>The similarity matrix and one pass of the greedy cut\<close>

text \<open>
  A square numpy array of shape (n, n) is its size \<open>n\<close> with an entry function on the
  indices below \<open>n\<close>; no operation of the source reads or writes an entry outside.
  \<open>flatten\<close> is the row-major order in which \<^verbatim>\<open>np.argmax\<close> scans the array.
\<close>

type_synonym matrix = "nat \<Rightarrow> nat \<Rightarrow> int"

definition flatten :: "nat \<Rightarrow> matrix \<Rightarrow> int list" where
  "flatten n A = concat (map (\<lambda>i. map (\<lambda>j. A i j) [0..<n]) [0..<n])"

fun first_index :: "'a list \<Rightarrow> 'a \<Rightarrow> nat" where
  "first_index [] v = 0"
| "first_index (x # xs) v = (if x = v then 0 else Suc (first_index xs v))"

text \<open>\<^verbatim>\<open>np.argmax\<close>: the first position of the maximum; it raises on an empty array.\<close>

fun np_argmax :: "int list \<Rightarrow> error + nat" where
  "np_argmax [] = Inl ValueError"
| "np_argmax (x # xs) = Inr (first_index (x # xs) (fold max xs x))"

text \<open>Assignment to a row, to a column and to one entry.\<close>

definition set_row :: "matrix \<Rightarrow> nat \<Rightarrow> (nat \<Rightarrow> int) \<Rightarrow> matrix" where
  "set_row A i v = (\<lambda>a b. if a = i then v b else A a b)"

definition set_col :: "matrix \<Rightarrow> nat \<Rightarrow> (nat \<Rightarrow> int) \<Rightarrow> matrix" where
  "set_col A j v = (\<lambda>a b. if b = j then v a else A a b)"

definition set_entry :: "matrix \<Rightarrow> nat \<Rightarrow> nat \<Rightarrow> int \<Rightarrow> matrix" where
  "set_entry A i j x = (\<lambda>a b. if a = i \<and> b = j then x else A a b)"

text \<open>
  The five matrix assignments of one merge in \<^verbatim>\<open>graph_cut_approx\<close>, in the source's order:
  row \<open>c\<close> gets row \<open>r\<close> added, column \<open>c\<close> becomes row \<open>c\<close>, row and column \<open>r\<close>
  become \<open>-1\<close>, entry \<open>(c, c)\<close> becomes \<open>0\<close>.
\<close>

definition merge_rows :: "matrix \<Rightarrow> nat \<Rightarrow> nat \<Rightarrow> matrix" where
  "merge_rows simMat r c =
     (let s1 = set_row simMat c (\<lambda>b. simMat c b + simMat r b);
          s2 = set_col s1 c (\<lambda>a. s1 c a);
          s3 = set_row s2 r (\<lambda>_. - 1);
          s4 = set_col s3 r (\<lambda>_. - 1)
      in set_entry s4 c c 0)"

text \<open>\<^verbatim>\<open>newLabels[newLabels==newLabels[c]] = newLabels[r]\<close>\<close>

definition relabel :: "nat list \<Rightarrow> nat \<Rightarrow> nat \<Rightarrow> nat list" where
  "relabel newLabels r c =
     (let lr = newLabels ! r; lc = newLabels ! c
      in map (\<lambda>l. if l = lc then lr else l) newLabels)"

record cut_state =
  Nnodes :: nat
  simMat :: matrix
  newLabels :: "nat list"

text \<open>The body of \<^verbatim>\<open>if maxVal > 0\<close>: the relabelling, then the matrix assignments.\<close>

definition merge_step :: "cut_state \<Rightarrow> nat \<Rightarrow> nat \<Rightarrow> cut_state" where
  "merge_step s r c =
     s \<lparr> newLabels := relabel (newLabels s) r c, simMat := merge_rows (simMat s) r c \<rparr>"

datatype 'a outcome = Raise error | Break 'a | Continue 'a

text \<open>
  One pass through the body of \<^verbatim>\<open>while True\<close>: the loop is left by an exception, by a
  \<^verbatim>\<open>break\<close> (with the state at that point) or it goes on with the next pass.
\<close>

definition cut_iteration :: "nat option \<Rightarrow> cut_state \<Rightarrow> cut_state outcome" where
  "cut_iteration n_clusters s =
     (case np_argmax (flatten (Nnodes s) (simMat s)) of
        Inl e \<Rightarrow> Raise e
      | Inr maxInd \<Rightarrow>
          let r = maxInd div Nnodes s;
              c = maxInd mod Nnodes s;
              maxVal = simMat s r c
          in if maxVal > 0 then
               let s' = merge_step s r c
               in (case n_clusters of
                     None \<Rightarrow> Continue s'
                   | Some K \<Rightarrow>
                       let Ngroups = length (np_unique (newLabels s'))
                       in if Ngroups \<le> K then Break s' else Continue s')
             else Break s)"

text \<open>
  A node is live when its row or its column still holds a positive entry; the number of
  live nodes is the measure under which the loop terminates.
\<close>

definition live :: "cut_state \<Rightarrow> nat \<Rightarrow> bool" where
  "live s d = (\<exists>j < Nnodes s. simMat s d j > 0 \<or> simMat s j d > 0)"

definition live_count :: "cut_state \<Rightarrow> nat" where
  "live_count s = card {d. d < Nnodes s \<and> live s d}"

subsection \<open>Termination of the greedy cut\<close>

text \<open>
  The loop of \<^verbatim>\<open>graph_cut_approx\<close> has no bound of its own. The facts below show that
  every pass that goes on makes one more node dead, which is what the definition of the
  loop as a total function rests on.
\<close>

lemma length_concat_rows:
  "(\<And>i. i < m \<Longrightarrow> length (f i) = n) \<Longrightarrow> length (concat (map f [0..<m])) = m * n"
  by (induction m) auto

lemma nth_concat_rows:
  "(\<And>i. i < m \<Longrightarrow> length (f i) = n) \<Longrightarrow> i < m \<Longrightarrow> j < n \<Longrightarrow>
   concat (map f [0..<m]) ! (i * n + j) = f i ! j"
proof (induction m)
  case 0
  then show ?case by simp
next
  case (Suc m)
  have len: "length (concat (map f [0..<m])) = m * n"
    using Suc.prems(1) by (intro length_concat_rows) simp
  show ?case
  proof (cases "i < m")
    case True
    then have "Suc i * n \<le> m * n"
      by (intro mult_le_mono1) simp
    then have "i * n + j < m * n"
      using Suc.prems(3) by simp
    with True Suc show ?thesis by (simp add: nth_append len)
  next
    case False
    with Suc.prems have "i = m" by simp
    then show ?thesis by (simp add: nth_append len)
  qed
qed

lemma length_flatten [simp]: "length (flatten n A) = n * n"
  unfolding flatten_def by (rule length_concat_rows) simp

lemma flatten_nth:
  assumes "k < n * n"
  shows "flatten n A ! k = A (k div n) (k mod n)"
proof -
  have n: "0 < n" using assms by (cases n) auto
  have i: "k div n < n" using assms n by (simp add: less_mult_imp_div_less)
  have j: "k mod n < n" using n by simp
  have "flatten n A ! (k div n * n + k mod n) = map (\<lambda>j. A (k div n) j) [0..<n] ! (k mod n)"
    unfolding flatten_def by (rule nth_concat_rows) (use i j in simp_all)
  then show ?thesis using j by simp
qed

lemma first_index_less: "v \<in> set xs \<Longrightarrow> first_index xs v < length xs"
  by (induction xs) auto

lemma first_index_nth: "v \<in> set xs \<Longrightarrow> xs ! first_index xs v = v"
  by (induction xs) auto

lemma fold_max_ge: "fold max xs (x::int) \<ge> x \<and> (\<forall>y \<in> set xs. y \<le> fold max xs x)"
proof (induction xs arbitrary: x)
  case Nil
  then show ?case by simp
next
  case (Cons a xs)
  from Cons.IH [of "max a x"] show ?case by auto
qed

lemma fold_max_mem: "fold max xs (x::int) \<in> set (x # xs)"
proof (induction xs arbitrary: x)
  case Nil
  then show ?case by simp
next
  case (Cons a xs)
  from Cons.IH [of "max a x"] show ?case by (auto simp: max_def split: if_splits)
qed

lemma np_argmax_Inr:
  assumes "np_argmax xs = Inr k"
  shows "k < length xs" and "\<forall>y \<in> set xs. y \<le> xs ! k"
proof -
  obtain x xs' where xs: "xs = x # xs'" using assms by (cases xs) auto
  let ?m = "fold max xs' x"
  have k: "k = first_index xs ?m" using assms xs by simp
  have mem: "?m \<in> set xs" using fold_max_mem [of xs' x] xs by simp
  show "k < length xs" using k mem first_index_less by simp
  have "xs ! k = ?m" using k mem first_index_nth by simp
  then show "\<forall>y \<in> set xs. y \<le> xs ! k"
    using fold_max_ge [of x xs'] xs by auto
qed

lemma np_argmax_Inl: "np_argmax xs = Inl e \<Longrightarrow> xs = [] \<and> e = ValueError"
  by (cases xs) auto

lemma merge_rows_apply:
  "merge_rows A r c a b =
     (if a = c \<and> b = c then 0
      else if a = r \<or> b = r then - 1
      else if b = c then A c a + A r a
      else if a = c then A c b + A r b
      else A a b)"
  by (simp add: merge_rows_def set_row_def set_col_def set_entry_def Let_def)

lemma Nnodes_merge_step [simp]: "Nnodes (merge_step s r c) = Nnodes s"
  by (simp add: merge_step_def)

lemma simMat_merge_step [simp]: "simMat (merge_step s r c) = merge_rows (simMat s) r c"
  by (simp add: merge_step_def)

lemma newLabels_merge_step [simp]: "newLabels (merge_step s r c) = relabel (newLabels s) r c"
  by (simp add: merge_step_def)

text \<open>The three ways one pass of the loop can go.\<close>

lemma cut_iteration_cases:
  obtains
    (Raise) "Nnodes s = 0" and "cut_iteration K s = Raise ValueError"
  | (Stop) "0 < Nnodes s" and "cut_iteration K s = Break s"
      and "\<And>a b. a < Nnodes s \<Longrightarrow> b < Nnodes s \<Longrightarrow> simMat s a b \<le> 0"
  | (Merge) r c where "r < Nnodes s" and "c < Nnodes s" and "0 < simMat s r c"
      and "\<And>a b. a < Nnodes s \<Longrightarrow> b < Nnodes s \<Longrightarrow> simMat s a b \<le> simMat s r c"
      and "cut_iteration K s =
            (if (case K of None \<Rightarrow> False | Some k \<Rightarrow> length (np_unique (newLabels (merge_step s r c))) \<le> k)
             then Break (merge_step s r c) else Continue (merge_step s r c))"
proof (cases "np_argmax (flatten (Nnodes s) (simMat s))")
  case (Inl e)
  then have "flatten (Nnodes s) (simMat s) = []" and e: "e = ValueError"
    using np_argmax_Inl by blast+
  then have "length (flatten (Nnodes s) (simMat s)) = 0" by simp
  then have "Nnodes s = 0" by simp
  moreover have "cut_iteration K s = Raise ValueError"
    using Inl e by (simp add: cut_iteration_def)
  ultimately show ?thesis by (rule Raise)
next
  case (Inr k)
  let ?n = "Nnodes s"
  let ?r = "k div ?n" and ?c = "k mod ?n"
  have k: "k < ?n * ?n" using np_argmax_Inr(1) [OF Inr] by simp
  then have n: "0 < ?n" by (cases ?n) auto
  have r: "?r < ?n" using k n by (simp add: less_mult_imp_div_less)
  have c: "?c < ?n" using n by simp
  have val: "flatten ?n (simMat s) ! k = simMat s ?r ?c" using k by (rule flatten_nth)
  have maxi: "simMat s a b \<le> simMat s ?r ?c" if "a < ?n" "b < ?n" for a b
  proof -
    have "a * ?n + b < ?n * ?n"
    proof -
      have "Suc a * ?n \<le> ?n * ?n" using that(1) by (intro mult_le_mono1) simp
      then show ?thesis using that(2) by simp
    qed
    then have "flatten ?n (simMat s) ! (a * ?n + b) \<in> set (flatten ?n (simMat s))"
      by (intro nth_mem) simp
    moreover have "flatten ?n (simMat s) ! (a * ?n + b) = simMat s a b"
      unfolding flatten_def by (subst nth_concat_rows [where n = ?n]) (use that in simp_all)
    ultimately show ?thesis using np_argmax_Inr(2) [OF Inr] val by auto
  qed
  show ?thesis
  proof (cases "0 < simMat s ?r ?c")
    case True
    have "cut_iteration K s =
            (if (case K of None \<Rightarrow> False | Some k \<Rightarrow> length (np_unique (newLabels (merge_step s ?r ?c))) \<le> k)
             then Break (merge_step s ?r ?c) else Continue (merge_step s ?r ?c))"
      using Inr True by (simp add: cut_iteration_def Let_def split: option.splits)
    with r c True maxi show ?thesis by (rule Merge)
  next
    case False
    have "cut_iteration K s = Break s"
      using Inr False by (simp add: cut_iteration_def Let_def)
    moreover have "simMat s a b \<le> 0" if "a < ?n" "b < ?n" for a b
      using maxi [OF that] False by simp
    ultimately show ?thesis using n by (intro Stop)
  qed
qed

lemma live_merge_step:
  assumes r: "r < Nnodes s" and c: "c < Nnodes s" and pos: "0 < simMat s r c"
  shows "\<not> live (merge_step s r c) r"
    and "\<And>d. live (merge_step s r c) d \<Longrightarrow> live s d"
    and "live s r"
proof -
  show "\<not> live (merge_step s r c) r"
    by (auto simp: live_def merge_rows_apply)
  show "live s r" using c pos by (auto simp: live_def)
  have livec: "live s c" using r pos by (auto simp: live_def)
  fix d assume "live (merge_step s r c) d"
  then obtain j where j: "j < Nnodes s"
    and "0 < merge_rows (simMat s) r c d j \<or> 0 < merge_rows (simMat s) r c j d"
    by (auto simp: live_def)
  then consider (same) "0 < simMat s d j \<or> 0 < simMat s j d"
    | (isc) "d = c"
    | (col) "0 < simMat s c d + simMat s r d"
    unfolding merge_rows_apply by (auto split: if_splits)
  then show "live s d"
  proof cases
    case same
    then show ?thesis using j by (auto simp: live_def)
  next
    case isc
    then show ?thesis using livec by simp
  next
    case col
    then have "0 < simMat s c d \<or> 0 < simMat s r d" by arith
    then show ?thesis using r c by (auto simp: live_def)
  qed
qed

lemma live_count_merge_step:
  assumes r: "r < Nnodes s" and c: "c < Nnodes s" and pos: "0 < simMat s r c"
  shows "live_count (merge_step s r c) < live_count s"
proof -
  let ?A = "{d. d < Nnodes s \<and> live (merge_step s r c) d}"
  let ?B = "{d. d < Nnodes s \<and> live s d}"
  have "?A \<subseteq> ?B" using live_merge_step(2) [OF assms] by auto
  moreover have "r \<in> ?B" "r \<notin> ?A"
    using live_merge_step(1,3) [OF assms] r by auto
  ultimately have "?A \<subset> ?B" by blast
  moreover have "finite ?B" by simp
  ultimately have "card ?A < card ?B" by (rule psubset_card_mono [rotated])
  then show ?thesis by (simp add: live_count_def)
qed

lemma cut_iteration_Continue:
  assumes "cut_iteration K s = Continue s'"
  obtains r c where "r < Nnodes s" and "c < Nnodes s" and "0 < simMat s r c"
    and "s' = merge_step s r c"
  using assms by (cases K s rule: cut_iteration_cases) (auto split: if_splits)

lemma cut_iteration_decreases:
  "cut_iteration K s = Continue s' \<Longrightarrow> live_count s' < live_count s"
  by (erule cut_iteration_Continue) (simp add: live_count_merge_step)

text \<open>
  The loop of \<^verbatim>\<open>graph_cut_approx\<close>. It terminates on every state: each pass that goes on
  has made one more node dead.
\<close>

function graph_cut_loop :: "nat option \<Rightarrow> cut_state \<Rightarrow> error + cut_state" where
  "graph_cut_loop n_clusters s =
     (case cut_iteration n_clusters s of
        Raise e \<Rightarrow> Inl e
      | Break s' \<Rightarrow> Inr s'
      | Continue s' \<Rightarrow> graph_cut_loop n_clusters s')"
  by pat_completeness auto
termination
  by (relation "measure (\<lambda>(K, s). live_count s)") (auto simp: cut_iteration_decreases)

declare graph_cut_loop.simps [simp del]

definition graph_cut_approx :: "nat option \<Rightarrow> nat \<Rightarrow> matrix \<Rightarrow> error + nat list" where
  "graph_cut_approx n_clusters n simMat0 =
     (case graph_cut_loop n_clusters \<lparr> Nnodes = n, simMat = simMat0, newLabels = [0..<n] \<rparr> of
        Inl e \<Rightarrow> Inl e
      | Inr s \<Rightarrow> Inr (newLabels s))"

text \<open>
  The same loop, recording the state before every pass and the state at the
  \<^verbatim>\<open>break\<close>: consecutive entries are the states before and after one pass.
\<close>

function graph_cut_trace :: "nat option \<Rightarrow> cut_state \<Rightarrow> cut_state list" where
  "graph_cut_trace n_clusters s =
     s # (case cut_iteration n_clusters s of
            Raise e \<Rightarrow> []
          | Break s' \<Rightarrow> [s']
          | Continue s' \<Rightarrow> graph_cut_trace n_clusters s')"
  by pat_completeness auto
termination
  by (relation "measure (\<lambda>(K, s). live_count s)") (auto simp: cut_iteration_decreases)

declare graph_cut_trace.simps [simp del]

subsection \<open>The node graph: \<^verbatim>\<open>merge_nodes\<close>, \<^verbatim>\<open>complete_matrix\<close>\<close>

text \<open>\<^verbatim>\<open>self.constrainedSamps[self.labelSet==i]\<close>\<close>

definition group_of :: "store \<Rightarrow> nat list \<Rightarrow> nat \<Rightarrow> nat list" where
  "group_of self labelSet i = mask_select (constrainedSamps self) (map (\<lambda>l. l = i) labelSet)"

text \<open>The inner loop over \<open>ii\<close> and the outer loop over \<open>i\<close> that fill the matrix.\<close>

fun build_inner ::
  "store \<Rightarrow> nat list \<Rightarrow> nat \<Rightarrow> nat list \<Rightarrow> nat list \<Rightarrow> matrix \<Rightarrow> error + matrix" where
  "build_inner self labelSet i group1 [] simMat0 = Inr simMat0"
| "build_inner self labelSet i group1 (ii # rest) simMat0 =
     (let group2 = group_of self labelSet ii
      in case number_of_constraints self group1 group2 0 of
           Inl e \<Rightarrow> Inl e
         | Inr Ncl \<Rightarrow>
             (case number_of_constraints self group1 group2 1 of
                Inl e \<Rightarrow> Inl e
              | Inr Nml \<Rightarrow>
                  let val = int Nml - int Ncl
                  in build_inner self labelSet i group1 rest
                       (set_entry (set_entry simMat0 i ii val) ii i val)))"

text \<open>
  \<^verbatim>\<open>self.data[group1,:]\<close> reads the rows of the \<open>N\<close> by \<open>d\<close> data matrix at the members of
  the group, so a member that is no row index raises; the centroids and populations
  themselves only go to the plot and to the neighbour service.
\<close>

fun build_outer ::
  "store \<Rightarrow> nat \<Rightarrow> nat list \<Rightarrow> nat \<Rightarrow> nat list \<Rightarrow> matrix \<Rightarrow> error + matrix" where
  "build_outer self N labelSet NuniqueLabels [] simMat0 = Inr simMat0"
| "build_outer self N labelSet NuniqueLabels (i # rest) simMat0 =
     (let group1 = group_of self labelSet i
      in if \<not> list_all (\<lambda>x. x < N) group1 then Inl IndexError
         else
           case (if i < NuniqueLabels - 1
                 then build_inner self labelSet i group1 [i + 1..<NuniqueLabels] simMat0
                 else Inr simMat0) of
             Inl e \<Rightarrow> Inl e
           | Inr simMat1 \<Rightarrow> build_outer self N labelSet NuniqueLabels rest simMat1)"

definition build_simMat :: "store \<Rightarrow> nat \<Rightarrow> nat list \<Rightarrow> error + matrix" where
  "build_simMat self N labelSet =
     (let NuniqueLabels = length (np_unique labelSet)
      in build_outer self N labelSet NuniqueLabels [0..<NuniqueLabels] (\<lambda>a b. 0))"

text \<open>
  \<^verbatim>\<open>complete_matrix\<close>. The neighbour service is external: \<open>indices i\<close> is row \<open>i\<close> of the
  index array \<^verbatim>\<open>kneighbors\<close> returns, and \<^verbatim>\<open>indices[i,1:(k+1)]\<close> is
  \<open>take k (drop 1 (indices i))\<close>. An index that is no node raises when the boolean row
  \<^verbatim>\<open>neighInd\<close> is written.
\<close>

definition neighbours :: "(nat \<Rightarrow> nat list) \<Rightarrow> nat \<Rightarrow> nat \<Rightarrow> nat list" where
  "neighbours indices k i = take k (drop 1 (indices i))"

definition complete_row ::
  "matrix \<Rightarrow> (nat \<Rightarrow> nat list) \<Rightarrow> nat \<Rightarrow> nat \<Rightarrow> matrix \<Rightarrow> matrix" where
  "complete_row simMat0 indices k i newSimMat =
     (let neighInd = (\<lambda>j. j \<in> set (neighbours indices k i) \<and> simMat0 i j = 0);
          m1 = (\<lambda>a b. if a = i \<and> neighInd b then 1 else newSimMat a b)
      in (\<lambda>a b. if b = i \<and> neighInd a then 1 else m1 a b))"

definition complete_matrix ::
  "(nat \<Rightarrow> nat list) \<Rightarrow> nat \<Rightarrow> matrix \<Rightarrow> nat \<Rightarrow> error + matrix" where
  "complete_matrix indices Nnodes0 simMat0 k =
     (if \<not> 1 \<le> k then Inl AssertionError
      else if \<not> list_all (\<lambda>i. list_all (\<lambda>j. j < Nnodes0) (neighbours indices k i)) [0..<Nnodes0]
      then Inl IndexError
      else Inr (fold (complete_row simMat0 indices k) [0..<Nnodes0] simMat0))"

text \<open>
  The matrix that reaches the plot and the cut: completed when there are more than
  \<^verbatim>\<open>Nneigh*2\<close> nodes, with \<^verbatim>\<open>Nneigh = 2\<close> and the literal \<open>k = 2\<close> of the source.
\<close>

definition completed_simMat ::
  "(nat \<Rightarrow> nat list) \<Rightarrow> nat \<Rightarrow> matrix \<Rightarrow> error + matrix" where
  "completed_simMat indices NuniqueLabels simMat0 =
     (let Nneigh = 2
      in if NuniqueLabels > Nneigh * 2 then complete_matrix indices NuniqueLabels simMat0 2
         else Inr simMat0)"

text \<open>
  Of \<^verbatim>\<open>plot_graph_cut_problem\<close> only the exception is modelled: \<^verbatim>\<open>np.max\<close> of the absolute
  values of the nonzero entries above the diagonal raises when there is none.
\<close>

definition plot_graph_cut_problem :: "nat \<Rightarrow> matrix \<Rightarrow> error + unit" where
  "plot_graph_cut_problem n simMat0 =
     (if concat (map (\<lambda>a. filter (\<lambda>b. a < b \<and> simMat0 a b \<noteq> 0) [0..<n]) [0..<n]) = []
      then Inl ValueError else Inr ())"

definition merge_nodes ::
  "store \<Rightarrow> nat option \<Rightarrow> nat \<Rightarrow> (nat \<Rightarrow> nat list) \<Rightarrow> nat list \<Rightarrow> error + nat list" where
  "merge_nodes self n_clusters N indices labelSet =
     (let NuniqueLabels = length (np_unique labelSet)
      in case build_simMat self N labelSet of
           Inl e \<Rightarrow> Inl e
         | Inr builtMat \<Rightarrow>
             (case completed_simMat indices NuniqueLabels builtMat of
                Inl e \<Rightarrow> Inl e
              | Inr cutMat \<Rightarrow>
                  (case plot_graph_cut_problem NuniqueLabels cutMat of
                     Inl e \<Rightarrow> Inl e
                   | Inr _ \<Rightarrow> graph_cut_approx n_clusters NuniqueLabels cutMat)))"

subsection \<open>Label translation\<close>

text \<open>
  \<^verbatim>\<open>translate_labels\<close>: for every unique label in turn, the entries of the label set that
  hold it at that moment are overwritten, in place.
\<close>

fun translate_loop :: "nat list \<Rightarrow> nat list \<Rightarrow> nat list \<Rightarrow> error + nat list" where
  "translate_loop [] newLabels0 labelSet = Inr labelSet"
| "translate_loop (lab # rest) newLabels0 labelSet =
     (if lab < length newLabels0
      then translate_loop rest newLabels0
             (map (\<lambda>l. if l = lab then newLabels0 ! lab else l) labelSet)
      else Inl IndexError)"

definition translate_labels :: "nat list \<Rightarrow> nat list \<Rightarrow> error + nat list" where
  "translate_labels labelSet newLabels0 = translate_loop (np_unique labelSet) newLabels0 labelSet"

subsection \<open>Agglomeration along the dendrogram\<close>

text \<open>
  \<^verbatim>\<open>linkage_to_merges\<close>. The rows of \<^verbatim>\<open>children_\<close> come from the external hierarchical
  clustering; the generator is consumed by one loop, so it is modelled by the list of
  what it yields.
\<close>

fun linkage_loop ::
  "nat list list \<Rightarrow> (nat \<times> nat) list \<Rightarrow> error + (nat list \<times> nat list) list" where
  "linkage_loop clusMem [] = Inr []"
| "linkage_loop clusMem ((group1, group2) # rest) =
     (if group1 < length clusMem \<and> group2 < length clusMem
      then (case linkage_loop (clusMem @ [clusMem ! group1 @ clusMem ! group2]) rest of
              Inl e \<Rightarrow> Inl e
            | Inr merges \<Rightarrow> Inr ((clusMem ! group1, clusMem ! group2) # merges))
      else Inl IndexError)"

definition linkage_to_merges ::
  "nat \<Rightarrow> (nat \<times> nat) list \<Rightarrow> error + (nat list \<times> nat list) list" where
  "linkage_to_merges N children =
     (if length children < N - 1 then Inl IndexError
      else linkage_loop (map (\<lambda>x. [x]) [0..<N]) (take (N - 1) children))"

text \<open>\<^verbatim>\<open>bigLabelSet[group1] = v\<close>\<close>

definition assign_all :: "nat list \<Rightarrow> nat list \<Rightarrow> nat \<Rightarrow> nat list" where
  "assign_all bigLabelSet group1 v = fold (\<lambda>i l. l[i := v]) group1 bigLabelSet"

fun agglomerate_loop ::
  "store \<Rightarrow> (nat list \<times> nat list) list \<Rightarrow> nat list \<Rightarrow> error + nat list" where
  "agglomerate_loop self [] bigLabelSet = Inr bigLabelSet"
| "agglomerate_loop self ((group1, group2) # rest) bigLabelSet =
     (let allSamps = group1 @ group2
      in case is_CL_violated self allSamps of
           Inl e \<Rightarrow> Inl e
         | Inr violated \<Rightarrow>
             if \<not> violated then
               (case group2 of
                  [] \<Rightarrow> Inl IndexError
                | g # _ \<Rightarrow>
                    if g < length bigLabelSet \<and> list_all (\<lambda>x. x < length bigLabelSet) group1
                    then agglomerate_loop self rest
                           (assign_all bigLabelSet group1 (bigLabelSet ! g))
                    else Inl IndexError)
             else agglomerate_loop self rest bigLabelSet)"

definition agglomerate_constrained_samples ::
  "store \<Rightarrow> nat \<Rightarrow> (nat \<times> nat) list \<Rightarrow> error + nat list" where
  "agglomerate_constrained_samples self N children =
     (case linkage_to_merges N children of
        Inl e \<Rightarrow> Inl e
      | Inr allMerges \<Rightarrow>
          (case agglomerate_loop self allMerges [0..<N] of
             Inl e \<Rightarrow> Inl e
           | Inr bigLabelSet \<Rightarrow>
               if list_all (\<lambda>x. x < N) (constrainedSamps self)
               then Inr (translate_to_counting_numbers
                           (map (\<lambda>x. bigLabelSet ! x) (constrainedSamps self)))
               else Inl IndexError))"

subsection \<open>The pipeline: \<^verbatim>\<open>fit_constrained\<close>\<close>

text \<open>
  \<open>N\<close> is the number of rows of the data matrix; \<open>children\<close> is what the hierarchical
  clustering of the data returns and \<open>indices\<close> what the neighbour service returns.
\<close>

definition fit_constrained ::
  "store \<Rightarrow> nat option \<Rightarrow> nat \<Rightarrow> (nat \<times> nat) list \<Rightarrow> (nat \<Rightarrow> nat list) \<Rightarrow> error + nat list" where
  "fit_constrained self n_clusters N children indices =
     (case agglomerate_constrained_samples self N children of
        Inl e \<Rightarrow> Inl e
      | Inr labelSet \<Rightarrow>
          (case merge_nodes self n_clusters N indices labelSet of
             Inl e \<Rightarrow> Inl e
           | Inr newLabels0 \<Rightarrow> translate_labels labelSet newLabels0))"


section \<open>Notions the properties are stated with\<close>

subsection \<open>Concrete inputs\<close>

text \<open>A matrix given by its rows, for concrete inputs.\<close>

definition of_rows :: "int list list \<Rightarrow> matrix" where
  "of_rows rows = (\<lambda>a b. rows ! a ! b)"

text \<open>The index array of the neighbour service given by its rows, for concrete inputs.\<close>

definition of_rows_nat :: "nat list list \<Rightarrow> nat \<Rightarrow> nat list" where
  "of_rows_nat rows = (\<lambda>i. if i < length rows then rows ! i else [])"

subsection \<open>Constraint counts and renumbering, as documented\<close>

text \<open>
  The number of rows of kind \<open>consVal\<close> in the constraint table with one endpoint in
  \<open>group1\<close> and the other in \<open>group2\<close>: the quantity the documentation of
  \<^verbatim>\<open>number_of_constraints\<close> names, stated on the table itself for comparison.
\<close>

definition edges_between :: "constraint list \<Rightarrow> nat list \<Rightarrow> nat list \<Rightarrow> nat \<Rightarrow> nat" where
  "edges_between constraintMat group1 group2 consVal =
     length (filter (\<lambda>(i, j, v). v = consVal \<and>
                 ((i \<in> set group1 \<and> j \<in> set group2) \<or> (j \<in> set group1 \<and> i \<in> set group2)))
               constraintMat)"

text \<open>
  The numbering the specification describes, for comparison: the distinct values in the
  order of their first appearance, each value numbered by its position in that order.
\<close>

definition appearance_order :: "nat list \<Rightarrow> nat list" where
  "appearance_order a = rev (remdups (rev a))"

definition number_by_first_appearance :: "nat list \<Rightarrow> nat list" where
  "number_by_first_appearance a = map (first_index (appearance_order a)) a"

subsection \<open>Runs of the greedy cut\<close>

text \<open>The state in which \<^verbatim>\<open>graph_cut_approx\<close> enters its loop.\<close>

definition cut_init :: "nat \<Rightarrow> matrix \<Rightarrow> cut_state" where
  "cut_init n A = \<lparr> Nnodes = n, simMat = A, newLabels = [0..<n] \<rparr>"

text \<open>\<^verbatim>\<open>np.unique(newLabels).size\<close>\<close>

definition Ngroups :: "cut_state \<Rightarrow> nat" where
  "Ngroups s = length (np_unique (newLabels s))"

text \<open>The number of passes of a run that change \<^verbatim>\<open>newLabels\<close>.\<close>

fun merge_steps :: "cut_state list \<Rightarrow> nat" where
  "merge_steps (s # s' # rest) =
     (if newLabels s' \<noteq> newLabels s then 1 else 0) + merge_steps (s' # rest)"
| "merge_steps _ = 0"

text \<open>
  Every label is a node index and labels itself: the shape of \<^verbatim>\<open>newLabels\<close> throughout
  the loop.
\<close>

definition idempotent_labels :: "nat list \<Rightarrow> bool" where
  "idempotent_labels L = list_all (\<lambda>l. l < length L \<and> L ! l = l) L"

subsection \<open>Shape of the similarity matrix\<close>

definition symmetric :: "nat \<Rightarrow> matrix \<Rightarrow> bool" where
  "symmetric n A = list_all (\<lambda>a. list_all (\<lambda>b. A a b = A b a) [0..<n]) [0..<n]"

definition zero_diagonal :: "nat \<Rightarrow> matrix \<Rightarrow> bool" where
  "zero_diagonal n A = list_all (\<lambda>a. A a a = 0) [0..<n]"

text \<open>Every diagonal entry is 0 or the \<open>-1\<close> that marks a merged-away node.\<close>

definition diagonal_0_or_minus1 :: "nat \<Rightarrow> matrix \<Rightarrow> bool" where
  "diagonal_0_or_minus1 n A = list_all (\<lambda>a. A a a = 0 \<or> A a a = - 1) [0..<n]"

text \<open>Entries are the original ones or a 1 written over an original 0.\<close>

definition filled_from :: "nat \<Rightarrow> matrix \<Rightarrow> matrix \<Rightarrow> bool" where
  "filled_from n A B =
     list_all (\<lambda>a. list_all (\<lambda>b. B a b = A a b \<or> (A a b = 0 \<and> B a b = 1)) [0..<n]) [0..<n]"

text \<open>Every diagonal entry is 0 or the 1 that graph completion writes.\<close>

definition diagonal_0_or_1 :: "nat \<Rightarrow> matrix \<Rightarrow> bool" where
  "diagonal_0_or_1 n A = list_all (\<lambda>a. A a a = 0 \<or> A a a = 1) [0..<n]"

text \<open>
  Every diagonal entry of \<open>A\<close> is 0, the \<open>-1\<close> of a merged-away node, or still the entry
  of \<open>B\<close>.
\<close>

definition diagonal_kept :: "nat \<Rightarrow> matrix \<Rightarrow> matrix \<Rightarrow> bool" where
  "diagonal_kept n B A = list_all (\<lambda>a. A a a = 0 \<or> A a a = - 1 \<or> A a a = B a a) [0..<n]"

subsection \<open>Dendrograms and the invariants of agglomeration\<close>



text \<open>Some cannot-link pair has both its samples in the group.\<close>

definition CL_within :: "store \<Rightarrow> nat list \<Rightarrow> bool" where
  "CL_within self grp = (\<exists>(a, b) \<in> set (CL_pairs self). a \<in> set grp \<and> b \<in> set grp)"



subsection \<open>Dendrograms that fit the number of samples\<close>

text \<open>
  The rows of a dendrogram fit when row number \<open>i\<close> names two clusters that exist by then:
  indices below \<open>n + i\<close>, where \<open>n\<close> clusters exist before the first row.
\<close>

fun rows_fit :: "nat \<Rightarrow> (nat \<times> nat) list \<Rightarrow> bool" where
  "rows_fit n [] = True"
| "rows_fit n ((group1, group2) # rest) = (group1 < n \<and> group2 < n \<and> rows_fit (Suc n) rest)"

text \<open>A dendrogram fits \<open>N\<close> samples when it has at least \<open>N - 1\<close> rows and the first \<open>N - 1\<close> fit.\<close>

definition dendrogram_fits :: "nat \<Rightarrow> (nat \<times> nat) list \<Rightarrow> bool" where
  "dendrogram_fits N children = (N - 1 \<le> length children \<and> rows_fit N (take (N - 1) children))"

text \<open>Every cluster is non-empty and holds samples only.\<close>

definition clusters_ok :: "nat \<Rightarrow> nat list list \<Rightarrow> bool" where
  "clusters_ok N clusMem = list_all (\<lambda>c. c \<noteq> [] \<and> list_all (\<lambda>x. x < N) c) clusMem"

definition merges_in_range :: "nat \<Rightarrow> (nat list \<times> nat list) list \<Rightarrow> bool" where
  "merges_in_range N merges =
     list_all (\<lambda>m. snd m \<noteq> [] \<and> list_all (\<lambda>x. x < N) (fst m) \<and> list_all (\<lambda>x. x < N) (snd m)) merges"

section \<open>Lemmas\<close>

subsection \<open>The numpy operations\<close>

lemma ismember_fold_aux:
  "length ms = length a \<Longrightarrow>
   fold (\<lambda>element memberInd. map (\<lambda>(x, m). if x = element then 1 else m) (zip a memberInd)) b ms
   = map (\<lambda>(x, m). if x \<in> set b then (1::nat) else m) (zip a ms)"
proof (induction b arbitrary: ms)
  case Nil
  then show ?case by (simp add: map_idI split_beta map_snd_zip)
next
  case (Cons e b)
  let ?F = "\<lambda>element memberInd. map (\<lambda>(x, m). if x = element then (1::nat) else m) (zip a memberInd)"
  let ?ms' = "?F e ms"
  have len: "length ?ms' = length a" using Cons.prems by simp
  have "fold ?F (e # b) ms = fold ?F b ?ms'"
    by (simp only: fold_simps)
  also have "\<dots> = map (\<lambda>(x, m). if x \<in> set b then (1::nat) else m) (zip a ?ms')"
    by (rule Cons.IH [OF len])
  also have "\<dots> = map (\<lambda>(x, m). if x \<in> set (e # b) then (1::nat) else m) (zip a ms)"
    using Cons.prems by (intro nth_equalityI) auto
  finally show ?case .
qed

lemma ismember_eq: "ismember a b = map (\<lambda>x. x \<in> set b) a"
proof -
  have "fold (\<lambda>element memberInd. map (\<lambda>(x, m). if x = element then 1 else m) (zip a memberInd))
          b (map (\<lambda>_. 0::nat) a)
        = map (\<lambda>(x, m). if x \<in> set b then (1::nat) else m) (zip a (map (\<lambda>_. 0::nat) a))"
    by (rule ismember_fold_aux) simp
  then have "ismember a b
        = map (\<lambda>m. m > 0)
            (map (\<lambda>(x, m). if x \<in> set b then (1::nat) else m) (zip a (map (\<lambda>_. 0::nat) a)))"
    unfolding ismember_def by (rule arg_cong)
  also have "\<dots> = map (\<lambda>x. x \<in> set b) a"
    by (intro nth_equalityI) auto
  finally show ?thesis .
qed

lemma mask_select_map: "mask_select a (map P a) = filter P a"
  unfolding mask_select_def by (induction a) auto

lemma np_any_map: "np_any (map P a) = (\<exists>x \<in> set a. P x)"
  unfolding np_any_def by auto

lemma np_sum_bool_map: "np_sum_bool (map P a) = length (filter P a)"
  unfolding np_sum_bool_def by (induction a) auto

lemma set_np_unique [simp]: "set (np_unique a) = set a"
  by (simp add: np_unique_def)

lemma distinct_np_unique [simp]: "distinct (np_unique a)"
  by (simp add: np_unique_def)

lemma sorted_np_unique [simp]: "sorted (np_unique a)"
  by (simp add: np_unique_def)

lemma length_np_unique: "length (np_unique a) = card (set a)"
  by (simp add: np_unique_def length_remdups_card_conv)

subsection \<open>Renumbering to counting numbers\<close>

lemma sum_row_first_index:
  "distinct us \<Longrightarrow>
   sum_list (map (\<lambda>(b, j). (if b then 1 else 0) * j) (zip (map (\<lambda>u. x = u) us) [k..<k + length us]))
   = (if x \<in> set us then k + first_index us x else 0)"
proof (induction us arbitrary: k)
  case Nil
  then show ?case by simp
next
  case (Cons u us)
  have "[k..<k + length (u # us)] = k # [Suc k..<Suc k + length us]"
    by (subst upt_rec) simp
  then show ?case using Cons.prems Cons.IH [of "Suc k"] by auto
qed

lemma first_index_rank:
  "sorted us \<Longrightarrow> distinct us \<Longrightarrow> x \<in> set us \<Longrightarrow>
   first_index us x = card {y \<in> set us. y < (x::nat)}"
proof (induction us)
  case Nil
  then show ?case by simp
next
  case (Cons u us)
  show ?case
  proof (cases "x = u")
    case True
    have "{y \<in> set (u # us). y < u} = {}" using Cons.prems by auto
    then show ?thesis using True by simp
  next
    case False
    then have x: "x \<in> set us" using Cons.prems by simp
    then have ux: "u < x" using Cons.prems False by (auto simp: le_less)
    have "{y \<in> set (u # us). y < x} = insert u {y \<in> set us. y < x}"
      using ux by auto
    moreover have "u \<notin> {y \<in> set us. y < x}" using Cons.prems by simp
    ultimately have "card {y \<in> set (u # us). y < x} = Suc (card {y \<in> set us. y < x})"
      by simp
    then show ?thesis using False Cons.IH x Cons.prems by simp
  qed
qed

lemma translate_first_index:
  "translate_to_counting_numbers a = map (first_index (np_unique a)) a"
proof -
  have "sum_list (map (\<lambda>(b, j). (if b then 1 else 0) * j)
          (zip (map (\<lambda>u. x = u) (np_unique a)) [0..<length (np_unique a)]))
        = first_index (np_unique a) x" if "x \<in> set a" for x
    using sum_row_first_index [of "np_unique a" x 0] that by simp
  then show ?thesis
    unfolding translate_to_counting_numbers_def Let_def by (simp add: comp_def)
qed

lemma translate_rank:
  "translate_to_counting_numbers a = map (\<lambda>x. card {y \<in> set a. y < x}) a"
proof -
  have "first_index (np_unique a) x = card {y \<in> set a. y < x}" if "x \<in> set a" for x
    using first_index_rank [of "np_unique a" x] that by simp
  then show ?thesis by (simp add: translate_first_index)
qed


lemma first_index_image:
  "distinct us \<Longrightarrow> first_index us ` set us = {0..<length us}"
proof (induction us)
  case Nil
  then show ?case by simp
next
  case (Cons u us)
  have "first_index (u # us) ` set us = Suc ` (first_index us ` set us)"
    using Cons.prems by (auto simp: image_iff)
  then have "first_index (u # us) ` set (u # us) = insert 0 (Suc ` {0..<length us})"
    using Cons by simp
  also have "\<dots> = {0..<length (u # us)}"
    by (simp add: atLeast0_lessThan_Suc_eq_insert_0)
  finally show ?case .
qed

lemma set_translate:
  "set (translate_to_counting_numbers a) = {0..<card (set a)}"
proof -
  have "set (translate_to_counting_numbers a) = first_index (np_unique a) ` set (np_unique a)"
    by (simp add: translate_first_index)
  then show ?thesis
    using first_index_image [of "np_unique a"] by (simp add: length_np_unique)
qed


lemma agglomerate_constrained_samples_Inr:
  assumes "agglomerate_constrained_samples self N children = Inr labelSet"
  obtains allMerges bigLabelSet where
    "linkage_to_merges N children = Inr allMerges"
    "agglomerate_loop self allMerges [0..<N] = Inr bigLabelSet"
    "list_all (\<lambda>x. x < N) (constrainedSamps self)"
    "labelSet = translate_to_counting_numbers (map (\<lambda>x. bigLabelSet ! x) (constrainedSamps self))"
  using assms unfolding agglomerate_constrained_samples_def
  by (auto split: sum.splits if_splits)

subsection \<open>Exceptions of the agglomeration\<close>

lemma other_sample_in_pair_CL:
  "other_sample_in_pair self grp 0
     = Inr (map snd (filter (\<lambda>p. fst p \<in> set grp) (CL_pairs self)))"
  by (simp add: other_sample_in_pair_def ismember_eq mask_select_map comp_def)

lemma is_CL_violated_eq: "is_CL_violated self grp = Inr (CL_within self grp)"
  unfolding is_CL_violated_def other_sample_in_pair_CL CL_within_def
  by (auto simp: ismember_eq np_any_map image_iff)

lemma linkage_loop_error: "linkage_loop clusMem children = Inl e \<Longrightarrow> e = IndexError"
  by (induction clusMem children rule: linkage_loop.induct) (auto split: if_splits sum.splits)

lemma agglomerate_loop_error: "agglomerate_loop self merges big = Inl e \<Longrightarrow> e = IndexError"
proof (induction merges arbitrary: big)
  case Nil
  then show ?case by simp
next
  case (Cons m merges)
  obtain group1 group2 where m: "m = (group1, group2)" by (cases m)
  show ?case
  proof (cases "CL_within self (group1 @ group2)")
    case True
    then show ?thesis using Cons m by (simp add: is_CL_violated_eq)
  next
    case False
    then show ?thesis
      using Cons.prems m Cons.IH
      by (cases group2) (auto simp: is_CL_violated_eq split: if_splits)
  qed
qed

lemma agglomerate_constrained_samples_error:
  "agglomerate_constrained_samples self N children = Inl e \<Longrightarrow> e = IndexError"
  unfolding agglomerate_constrained_samples_def linkage_to_merges_def
  by (auto split: sum.splits if_splits dest: linkage_loop_error agglomerate_loop_error)

lemma init_empty:
  "ConstrainedClustering_init [] = \<lparr> ML_pairs = [], CL_pairs = [], constrainedSamps = [] \<rparr>"
  by (simp add: ConstrainedClustering_init_def constraints_by_value_def np_unique_def)

lemma merge_nodes_no_labels: "merge_nodes self K N indices [] = Inl ValueError"
  by (simp add: merge_nodes_def build_simMat_def np_unique_def completed_simMat_def
      plot_graph_cut_problem_def)

lemma fit_constrained_empty:
  "fit_constrained (ConstrainedClustering_init []) K N children indices = Inl ValueError
   \<or> fit_constrained (ConstrainedClustering_init []) K N children indices = Inl IndexError"
proof (cases "agglomerate_constrained_samples (ConstrainedClustering_init []) N children")
  case (Inl e)
  then show ?thesis
    using agglomerate_constrained_samples_error [OF Inl] by (simp add: fit_constrained_def)
next
  case (Inr labelSet)
  then have "labelSet = []"
    by (auto simp: init_empty translate_to_counting_numbers_def np_unique_def
        elim!: agglomerate_constrained_samples_Inr)
  then show ?thesis using Inr by (simp add: fit_constrained_def merge_nodes_no_labels)
qed

subsection \<open>Runs of the greedy cut\<close>

lemma length_relabel [simp]: "length (relabel L r c) = length L"
  by (simp add: relabel_def Let_def)

lemma card_relabel_le: "card (set (relabel L r c)) \<le> card (set L)"
proof -
  define f where "f = (\<lambda>l. if l = L ! c then L ! r else l)"
  have "relabel L r c = map f L" by (simp add: relabel_def Let_def f_def)
  then have "set (relabel L r c) = f ` set L" by simp
  moreover have "card (f ` set L) \<le> card (set L)" by (rule card_image_le) simp
  ultimately show ?thesis by simp
qed

lemma card_relabel_less:
  assumes "r < length L" "c < length L" "relabel L r c \<noteq> L"
  shows "card (set (relabel L r c)) < card (set L)"
proof -
  let ?lr = "L ! r" and ?lc = "L ! c"
  have ne: "?lc \<noteq> ?lr"
  proof
    assume "?lc = ?lr"
    then have "relabel L r c = L" by (simp add: relabel_def Let_def map_idI)
    with assms(3) show False by simp
  qed
  have mem: "?lr \<in> set L" "?lc \<in> set L" using assms by simp_all
  have "set (relabel L r c) = set L - {?lc}"
    using ne mem by (auto simp: relabel_def Let_def)
  moreover have "card (set L - {?lc}) < card (set L)"
    using mem by (intro card_Diff1_less) simp_all
  ultimately show ?thesis by simp
qed

lemma Ngroups_card: "Ngroups s = card (set (newLabels s))"
  by (simp add: Ngroups_def length_np_unique)

lemma graph_cut_trace_Cons: "\<exists>rest. graph_cut_trace K s = s # rest"
  by (subst graph_cut_trace.simps) simp

lemma live_count_le: "live_count s \<le> Nnodes s"
proof -
  have "{d. d < Nnodes s \<and> live s d} \<subseteq> {..<Nnodes s}" by auto
  then have "card {d. d < Nnodes s \<and> live s d} \<le> card {..<Nnodes s}"
    by (intro card_mono) simp_all
  then show ?thesis by (simp add: live_count_def)
qed

lemma length_graph_cut_trace: "length (graph_cut_trace K s) \<le> live_count s + 2"
proof (induction K s rule: graph_cut_trace.induct)
  case (1 K s)
  show ?case
  proof (cases "cut_iteration K s")
    case (Raise e)
    then show ?thesis by (subst graph_cut_trace.simps) simp
  next
    case (Break s')
    then show ?thesis by (subst graph_cut_trace.simps) simp
  next
    case (Continue s')
    have "length (graph_cut_trace K s') \<le> live_count s' + 2"
      using "1.IH" Continue by simp
    moreover have "live_count s' < live_count s"
      using Continue by (rule cut_iteration_decreases)
    ultimately show ?thesis using Continue by (subst graph_cut_trace.simps) simp
  qed
qed

text \<open>What a pass leaves behind is the state unchanged or one merge step.\<close>

lemma cut_iteration_result:
  assumes "cut_iteration K s = Break s' \<or> cut_iteration K s = Continue s'"
  shows "s' = s \<or> (\<exists>r c. r < Nnodes s \<and> c < Nnodes s \<and> 0 < simMat s r c \<and> s' = merge_step s r c)"
  using assms by (cases K s rule: cut_iteration_cases) (auto split: if_splits)

lemma Ngroups_step:
  assumes "cut_iteration K s = Break s' \<or> cut_iteration K s = Continue s'"
  shows "Ngroups s' \<le> Ngroups s"
  using cut_iteration_result [OF assms] by (auto simp: Ngroups_card card_relabel_le)

lemma Ngroups_trace: "s' \<in> set (graph_cut_trace K s) \<Longrightarrow> Ngroups s' \<le> Ngroups s"
proof (induction K s rule: graph_cut_trace.induct)
  case (1 K s)
  show ?case
  proof (cases "cut_iteration K s")
    case (Raise e)
    then show ?thesis using "1.prems" by (subst (asm) graph_cut_trace.simps) simp
  next
    case (Break t)
    then show ?thesis
      using "1.prems" Ngroups_step [of K s t]
      by (subst (asm) graph_cut_trace.simps) auto
  next
    case (Continue t)
    have "Ngroups t \<le> Ngroups s" using Continue Ngroups_step by blast
    moreover have "s' = s \<or> s' \<in> set (graph_cut_trace K t)"
      using "1.prems" Continue by (subst (asm) graph_cut_trace.simps) simp
    ultimately show ?thesis using "1.IH" [OF Continue] by auto
  qed
qed

lemma Ngroups_sorted:
  "sorted_wrt (\<lambda>s s'. Ngroups s' \<le> Ngroups s) (graph_cut_trace K s)"
proof (induction K s rule: graph_cut_trace.induct)
  case (1 K s)
  show ?case
  proof (cases "cut_iteration K s")
    case (Raise e)
    then show ?thesis by (subst graph_cut_trace.simps) simp
  next
    case (Break t)
    then show ?thesis
      using Ngroups_step [of K s t] by (subst graph_cut_trace.simps) simp
  next
    case (Continue t)
    have "\<forall>s' \<in> set (graph_cut_trace K t). Ngroups s' \<le> Ngroups s"
      using Ngroups_trace [of _ K t] Ngroups_step [of K s t] Continue
      by (meson le_trans)
    then show ?thesis
      using "1.IH" [OF Continue] Continue by (subst graph_cut_trace.simps) simp
  qed
qed

lemma merge_steps_trace:
  "length (newLabels s) = Nnodes s \<Longrightarrow> merge_steps (graph_cut_trace K s) \<le> Ngroups s - 1"
proof (induction K s rule: graph_cut_trace.induct)
  case (1 K s)
  show ?case
  proof (cases K s rule: cut_iteration_cases)
    case Raise
    then show ?thesis by (subst graph_cut_trace.simps) simp
  next
    case Stop
    then show ?thesis by (subst graph_cut_trace.simps) simp
  next
    case (Merge r c)
    let ?s' = "merge_step s r c"
    have len: "length (newLabels ?s') = Nnodes ?s'" using "1.prems" by simp
    have "0 < length (newLabels ?s')" using Merge(1) "1.prems" by simp
    then have "set (newLabels ?s') \<noteq> {}" by (simp del: newLabels_merge_step)
    then have pos: "0 < Ngroups ?s'"
      by (simp add: Ngroups_card card_gt_0_iff del: newLabels_merge_step)
    have le: "Ngroups ?s' \<le> Ngroups s" by (simp add: Ngroups_card card_relabel_le)
    have less: "Ngroups ?s' < Ngroups s" if "newLabels ?s' \<noteq> newLabels s"
      using that Merge(1,2) "1.prems" by (simp add: Ngroups_card card_relabel_less)
    have step: "(if newLabels ?s' \<noteq> newLabels s then 1 else 0) + (Ngroups ?s' - 1) \<le> Ngroups s - 1"
      using pos le less by auto
    show ?thesis
    proof (cases "cut_iteration K s = Continue ?s'")
      case True
      obtain rest where rest: "graph_cut_trace K ?s' = ?s' # rest"
        using graph_cut_trace_Cons by blast
      have "merge_steps (graph_cut_trace K ?s') \<le> Ngroups ?s' - 1"
        using "1.IH" [OF True len] .
      then have "merge_steps (s # graph_cut_trace K ?s') \<le> Ngroups s - 1"
        using step rest by simp
      then show ?thesis using True by (subst graph_cut_trace.simps) simp
    next
      case False
      then have "cut_iteration K s = Break ?s'" using Merge(5) by (simp split: if_splits)
      then have "graph_cut_trace K s = [s, ?s']" by (subst graph_cut_trace.simps) simp
      then show ?thesis using step by simp
    qed
  qed
qed

lemma graph_cut_loop_last:
  "graph_cut_loop K s
     = (if Nnodes s = 0 then Inl ValueError else Inr (last (graph_cut_trace K s)))"
proof (induction K s rule: graph_cut_trace.induct)
  case (1 K s)
  show ?case
  proof (cases K s rule: cut_iteration_cases)
    case Raise
    then show ?thesis by (subst graph_cut_loop.simps) simp
  next
    case Stop
    then show ?thesis
      by (subst graph_cut_loop.simps, subst graph_cut_trace.simps) simp
  next
    case (Merge r c)
    let ?s' = "merge_step s r c"
    show ?thesis
    proof (cases "cut_iteration K s = Continue ?s'")
      case True
      obtain rest where rest: "graph_cut_trace K ?s' = ?s' # rest"
        using graph_cut_trace_Cons by blast
      have "graph_cut_loop K ?s' = Inr (last (graph_cut_trace K ?s'))"
        using "1.IH" [OF True] Merge(1) by simp
      then show ?thesis
        using True Merge(1) rest
        by (subst graph_cut_loop.simps, subst graph_cut_trace.simps) simp
    next
      case False
      then have "cut_iteration K s = Break ?s'" using Merge(5) by (simp split: if_splits)
      then show ?thesis using Merge(1)
        by (subst graph_cut_loop.simps, subst graph_cut_trace.simps) simp
    qed
  qed
qed

lemma graph_cut_approx_last:
  "graph_cut_approx K n A
     = (if n = 0 then Inl ValueError
        else Inr (newLabels (last (graph_cut_trace K (cut_init n A)))))"
  using graph_cut_loop_last [of K "cut_init n A"]
  by (simp add: graph_cut_approx_def cut_init_def)

subsection \<open>The relabelling is idempotent\<close>

lemma idempotent_labels_nth:
  "idempotent_labels L \<Longrightarrow> i < length L \<Longrightarrow> L ! i < length L \<and> L ! (L ! i) = L ! i"
  by (simp add: idempotent_labels_def list_all_length)

lemma idempotent_labels_upt: "idempotent_labels [0..<n]"
  by (simp add: idempotent_labels_def list_all_length)

lemma idempotent_labels_relabel:
  assumes "idempotent_labels L" "r < length L" "c < length L"
  shows "idempotent_labels (relabel L r c)"
proof -
  define L' where "L' = relabel L r c"
  have len: "length L' = length L" by (simp add: L'_def)
  have nth: "L' ! i = (if L ! i = L ! c then L ! r else L ! i)" if "i < length L" for i
    using that by (simp add: L'_def relabel_def Let_def)
  have r: "L ! r < length L" "L ! (L ! r) = L ! r"
    using idempotent_labels_nth [OF assms(1,2)] by simp_all
  have "L' ! i < length L' \<and> L' ! (L' ! i) = L' ! i" if i: "i < length L'" for i
  proof -
    have i': "i < length L" using i len by simp
    have Li: "L ! i < length L" "L ! (L ! i) = L ! i"
      using idempotent_labels_nth [OF assms(1) i'] by simp_all
    show ?thesis
    proof (cases "L ! i = L ! c")
      case True
      then have "L' ! i = L ! r" using nth [OF i'] by simp
      moreover have "L' ! (L ! r) = L ! r" using nth [OF r(1)] r(2) by simp
      ultimately show ?thesis using r len by simp
    next
      case False
      then have "L' ! i = L ! i" using nth [OF i'] by simp
      moreover have "L' ! (L ! i) = L ! i" using nth [OF Li(1)] Li(2) False by simp
      ultimately show ?thesis using Li len by simp
    qed
  qed
  then have "idempotent_labels L'"
    unfolding idempotent_labels_def list_all_length by blast
  then show ?thesis by (simp add: L'_def)
qed

lemma idempotent_labels_step:
  assumes "cut_iteration K s = Break s' \<or> cut_iteration K s = Continue s'"
    and "length (newLabels s) = Nnodes s" and "idempotent_labels (newLabels s)"
  shows "length (newLabels s') = Nnodes s' \<and> idempotent_labels (newLabels s')"
  using cut_iteration_result [OF assms(1)] assms(2,3)
  by (auto simp: idempotent_labels_relabel)

lemma graph_cut_loop_idempotent:
  "graph_cut_loop K s = Inr s' \<Longrightarrow> length (newLabels s) = Nnodes s \<Longrightarrow>
   idempotent_labels (newLabels s) \<Longrightarrow>
   Nnodes s' = Nnodes s \<and> length (newLabels s') = Nnodes s \<and> idempotent_labels (newLabels s')"
proof (induction K s rule: graph_cut_loop.induct)
  case (1 K s)
  show ?case
  proof (cases "cut_iteration K s")
    case (Raise e)
    then show ?thesis using "1.prems" by (subst (asm) graph_cut_loop.simps) simp
  next
    case (Break t)
    then have "s' = t" using "1.prems"(1) by (subst (asm) graph_cut_loop.simps) simp
    moreover have "Nnodes t = Nnodes s"
      using cut_iteration_result [of K s t] Break by auto
    ultimately show ?thesis
      using idempotent_labels_step [of K s t] Break "1.prems"(2,3) by simp
  next
    case (Continue t)
    then have "graph_cut_loop K t = Inr s'"
      using "1.prems"(1) by (subst (asm) graph_cut_loop.simps) simp
    moreover have "Nnodes t = Nnodes s"
      using cut_iteration_result [of K s t] Continue by auto
    moreover have "length (newLabels t) = Nnodes t \<and> idempotent_labels (newLabels t)"
      using idempotent_labels_step [of K s t] Continue "1.prems"(2,3) by simp
    ultimately show ?thesis using "1.IH" [OF Continue] by simp
  qed
qed

lemma graph_cut_approx_idempotent:
  assumes "graph_cut_approx K n A = Inr L"
  shows "length L = n" and "idempotent_labels L"
proof -
  from assms obtain s' where
    s': "graph_cut_loop K \<lparr> Nnodes = n, simMat = A, newLabels = [0..<n] \<rparr> = Inr s'"
    and L: "L = newLabels s'"
    by (auto simp: graph_cut_approx_def split: sum.splits)
  from graph_cut_loop_idempotent [OF s'] L
  show "length L = n" and "idempotent_labels L"
    by (simp_all add: idempotent_labels_upt)
qed

text \<open>
  The loop of \<^verbatim>\<open>translate_labels\<close>: once the labels in \<open>D\<close> have had their turn, an
  entry that started as \<open>x\<close> holds the new label of \<open>x\<close> when \<open>x\<close> is in \<open>D\<close> and still
  \<open>x\<close> otherwise.
\<close>

lemma translate_loop_map:
  assumes "idempotent_labels L" and "\<forall>x \<in> set xs. x < length L"
    and "distinct labs" and "set labs \<subseteq> set xs" and "D \<inter> set labs = {}"
  shows "translate_loop labs L (map (\<lambda>x. if x \<in> D then L ! x else x) xs)
         = Inr (map (\<lambda>x. if x \<in> D \<union> set labs then L ! x else x) xs)"
  using assms(3-5)
proof (induction labs arbitrary: D)
  case Nil
  then show ?case by simp
next
  case (Cons lab labs)
  have lab: "lab < length L" "lab \<notin> D" "lab \<notin> set labs"
    using Cons.prems assms(2) by auto
  let ?cur = "map (\<lambda>x. if x \<in> D then L ! x else x) xs"
  let ?cur' = "map (\<lambda>x. if x \<in> insert lab D then L ! x else x) xs"
  have eq: "map (\<lambda>l. if l = lab then L ! lab else l) ?cur = ?cur'"
  proof (rule nth_equalityI)
    show "length (map (\<lambda>l. if l = lab then L ! lab else l) ?cur) = length ?cur'" by simp
  next
    fix i
    assume "i < length (map (\<lambda>l. if l = lab then L ! lab else l) ?cur)"
    then have i: "i < length xs" by simp
    then have "xs ! i < length L" using assms(2) by simp
    then have "L ! (L ! (xs ! i)) = L ! (xs ! i)"
      using idempotent_labels_nth [OF assms(1)] by simp
    then show "map (\<lambda>l. if l = lab then L ! lab else l) ?cur ! i = ?cur' ! i"
      using i lab(2) by auto
  qed
  have "translate_loop (lab # labs) L ?cur
        = translate_loop labs L (map (\<lambda>l. if l = lab then L ! lab else l) ?cur)"
    using lab(1) by (simp only: translate_loop.simps if_True)
  also have "\<dots> = translate_loop labs L ?cur'"
    by (simp only: eq)
  also have "\<dots> = Inr (map (\<lambda>x. if x \<in> insert lab D \<union> set labs then L ! x else x) xs)"
    using Cons.prems lab by (intro Cons.IH) auto
  also have "\<dots> = Inr (map (\<lambda>x. if x \<in> D \<union> set (lab # labs) then L ! x else x) xs)"
    by simp
  finally show ?case .
qed

lemma translate_labels_map:
  assumes "idempotent_labels L" and "\<forall>x \<in> set labelSet. x < length L"
  shows "translate_labels labelSet L = Inr (map (\<lambda>x. L ! x) labelSet)"
proof -
  have "translate_loop (np_unique labelSet) L (map (\<lambda>x. if x \<in> {} then L ! x else x) labelSet)
        = Inr (map (\<lambda>x. if x \<in> {} \<union> set (np_unique labelSet) then L ! x else x) labelSet)"
    using assms by (intro translate_loop_map) simp_all
  then show ?thesis by (simp add: translate_labels_def cong: map_cong)
qed

subsection \<open>Symmetry and the diagonal of the similarity matrix\<close>

lemma symmetric_iff: "symmetric n A \<longleftrightarrow> (\<forall>a < n. \<forall>b < n. A a b = A b a)"
  by (auto simp: symmetric_def list_all_iff)

lemma zero_diagonal_iff: "zero_diagonal n A \<longleftrightarrow> (\<forall>a < n. A a a = 0)"
  by (auto simp: zero_diagonal_def list_all_iff)

lemma diagonal_0_or_minus1_iff:
  "diagonal_0_or_minus1 n A \<longleftrightarrow> (\<forall>a < n. A a a = 0 \<or> A a a = - 1)"
  by (auto simp: diagonal_0_or_minus1_def list_all_iff)

lemma symmetric_merge_rows: "symmetric n A \<Longrightarrow> symmetric n (merge_rows A r c)"
  by (simp add: symmetric_iff merge_rows_apply)

lemma diagonal_merge_rows: "diagonal_0_or_minus1 n A \<Longrightarrow> diagonal_0_or_minus1 n (merge_rows A r c)"
  by (simp add: diagonal_0_or_minus1_iff merge_rows_apply)

lemma zero_diagonal_imp: "zero_diagonal n A \<Longrightarrow> diagonal_0_or_minus1 n A"
  by (simp add: diagonal_0_or_minus1_iff zero_diagonal_iff)

text \<open>A property that every merge step keeps holds in every state of a run.\<close>

lemma graph_cut_trace_invariant:
  assumes "P s" and "\<And>s r c. P s \<Longrightarrow> P (merge_step s r c)"
  shows "list_all P (graph_cut_trace K s)"
  using assms(1)
proof (induction K s rule: graph_cut_trace.induct)
  case (1 K s)
  show ?case
  proof (cases "cut_iteration K s")
    case (Raise e)
    then show ?thesis using "1.prems" by (subst graph_cut_trace.simps) simp
  next
    case (Break t)
    then have "P t" using cut_iteration_result [of K s t] "1.prems" assms(2) by auto
    then show ?thesis using Break "1.prems" by (subst graph_cut_trace.simps) simp
  next
    case (Continue t)
    then have "P t" using cut_iteration_result [of K s t] "1.prems" assms(2) by auto
    then show ?thesis
      using Continue "1.prems" "1.IH" [OF Continue] by (subst graph_cut_trace.simps) simp
  qed
qed

lemma symmetric_trace:
  assumes "symmetric n B"
  shows "list_all (\<lambda>s. symmetric n (simMat s)) (graph_cut_trace K (cut_init n B))"
  by (rule graph_cut_trace_invariant) (use assms in \<open>simp_all add: cut_init_def symmetric_merge_rows\<close>)

lemma diagonal_trace:
  assumes "diagonal_0_or_minus1 n B"
  shows "list_all (\<lambda>s. diagonal_0_or_minus1 n (simMat s)) (graph_cut_trace K (cut_init n B))"
  by (rule graph_cut_trace_invariant) (use assms in \<open>simp_all add: cut_init_def diagonal_merge_rows\<close>)

subsection \<open>The matrix \<^verbatim>\<open>merge_nodes\<close> builds\<close>

lemma number_of_constraints_01:
  "consVal = 0 \<or> consVal = 1 \<Longrightarrow> \<exists>k. number_of_constraints self g1 g2 consVal = Inr k"
  by (auto simp: number_of_constraints_def other_sample_in_pair_def Let_def)

lemma build_inner_Cons:
  assumes Ncl: "number_of_constraints self group1 (group_of self labelSet ii) 0 = Inr Ncl"
    and Nml: "number_of_constraints self group1 (group_of self labelSet ii) 1 = Inr Nml"
  shows "build_inner self labelSet i group1 (ii # iis) A
         = build_inner self labelSet i group1 iis
             (set_entry (set_entry A i ii (int Nml - int Ncl)) ii i (int Nml - int Ncl))"
  apply (subst build_inner.simps)
  apply (simp only: Let_def)
  apply (simp only: Ncl Nml)
  apply (simp only: sum.case)
  done

lemma set_entry_pair_symmetric:
  fixes A :: matrix
  assumes "A a b = A b a"
  shows "set_entry (set_entry A i ii v) ii i v a b = set_entry (set_entry A i ii v) ii i v b a"
  unfolding set_entry_def using assms by presburger

lemma set_entry_pair_diagonal:
  fixes A :: matrix
  assumes "A a a = 0" "i \<noteq> ii"
  shows "set_entry (set_entry A i ii v) ii i v a a = 0"
  unfolding set_entry_def using assms by presburger

lemma build_inner_inv:
  assumes "build_inner self labelSet i group1 iis A = Inr B"
    and "i \<notin> set iis" and "\<forall>a b. A a b = A b a" and "\<forall>a. A a a = 0"
  shows "(\<forall>a b. B a b = B b a) \<and> (\<forall>a. B a a = 0)"
  using assms
proof (induction iis arbitrary: A)
  case Nil
  then show ?case by simp
next
  case (Cons ii iis)
  obtain Ncl where Ncl: "number_of_constraints self group1 (group_of self labelSet ii) 0 = Inr Ncl"
    using number_of_constraints_01 [of 0] by blast
  obtain Nml where Nml: "number_of_constraints self group1 (group_of self labelSet ii) 1 = Inr Nml"
    using number_of_constraints_01 [of 1] by blast
  define v where "v = int Nml - int Ncl"
  have B: "build_inner self labelSet i group1 iis (set_entry (set_entry A i ii v) ii i v) = Inr B"
    using Cons.prems(1) unfolding v_def by (simp only: build_inner_Cons [OF Ncl Nml])
  let ?A' = "set_entry (set_entry A i ii v) ii i v"
  have sym: "A a b = A b a" for a b using Cons.prems(3) by blast
  have diag: "A a a = 0" for a using Cons.prems(4) by blast
  have ne: "i \<noteq> ii" "i \<notin> set iis" using Cons.prems(2) by auto
  have "?A' a b = ?A' b a" for a b
    by (rule set_entry_pair_symmetric [OF sym])
  then have 1: "\<forall>a b. ?A' a b = ?A' b a" by blast
  have "?A' a a = 0" for a
    by (rule set_entry_pair_diagonal [OF diag ne(1)])
  then have 2: "\<forall>a. ?A' a a = 0" by blast
  show ?case by (rule Cons.IH [OF B ne(2) 1 2])
qed

lemma build_outer_inv:
  assumes "build_outer self N labelSet n is A = Inr B"
    and "\<forall>a b. A a b = A b a" and "\<forall>a. A a a = 0"
  shows "(\<forall>a b. B a b = B b a) \<and> (\<forall>a. B a a = 0)"
  using assms
proof (induction "is" arbitrary: A)
  case Nil
  then show ?case by simp
next
  case (Cons i "is")
  let ?g = "group_of self labelSet i"
  from Cons.prems(1) obtain A' where
    inner: "(if i < n - 1 then build_inner self labelSet i ?g [i + 1..<n] A else Inr A) = Inr A'"
    and outer: "build_outer self N labelSet n is A' = Inr B"
    by (auto simp: Let_def split: sum.splits if_splits)
  have "(\<forall>a b. A' a b = A' b a) \<and> (\<forall>a. A' a a = 0)"
  proof (cases "i < n - 1")
    case True
    then have "build_inner self labelSet i ?g [i + 1..<n] A = Inr A'" using inner by simp
    then show ?thesis
      using build_inner_inv [of self labelSet i ?g "[i + 1..<n]" A A'] Cons.prems(2,3) by simp
  next
    case False
    then show ?thesis using inner Cons.prems(2,3) by simp
  qed
  then show ?case using Cons.IH [OF outer] by simp
qed

lemma build_simMat_symmetric:
  assumes "build_simMat self N labelSet = Inr A"
  shows "symmetric n A" and "zero_diagonal n A"
proof -
  have "(\<forall>a b. A a b = A b a) \<and> (\<forall>a. A a a = 0)"
    using assms unfolding build_simMat_def Let_def by (rule build_outer_inv) simp_all
  then show "symmetric n A" and "zero_diagonal n A"
    by (simp_all add: symmetric_iff zero_diagonal_iff)
qed

subsection \<open>Graph completion\<close>

lemma complete_row_apply:
  "complete_row A indices k i new a b =
     (if b = i \<and> a \<in> set (neighbours indices k i) \<and> A i a = 0 then 1
      else if a = i \<and> b \<in> set (neighbours indices k i) \<and> A i b = 0 then 1
      else new a b)"
  by (simp add: complete_row_def Let_def)

lemma filled_from_iff:
  "filled_from n A B \<longleftrightarrow> (\<forall>a < n. \<forall>b < n. B a b = A a b \<or> (A a b = 0 \<and> B a b = 1))"
proof -
  have "(\<forall>a \<in> set [0..<n]. \<forall>b \<in> set [0..<n]. B a b = A a b \<or> (A a b = 0 \<and> B a b = 1))
        \<longleftrightarrow> (\<forall>a < n. \<forall>b < n. B a b = A a b \<or> (A a b = 0 \<and> B a b = 1))"
    by (simp add: Ball_def)
  then show ?thesis by (simp only: filled_from_def list_all_iff)
qed

lemma complete_row_symmetric:
  assumes "symmetric n new"
  shows "symmetric n (complete_row A indices k i new)"
proof -
  have "complete_row A indices k i new a b = complete_row A indices k i new b a"
    if "a < n" "b < n" for a b
  proof -
    have "new a b = new b a" using assms that by (simp add: symmetric_iff)
    then show ?thesis unfolding complete_row_apply by presburger
  qed
  then show ?thesis by (simp add: symmetric_iff)
qed

lemma complete_row_zero_diagonal:
  assumes "zero_diagonal n new" and "i \<notin> set (neighbours indices k i)"
  shows "zero_diagonal n (complete_row A indices k i new)"
  using assms by (auto simp: zero_diagonal_iff complete_row_apply)

lemma complete_row_filled:
  assumes "symmetric n A" and "i < n" and "filled_from n A new"
  shows "filled_from n A (complete_row A indices k i new)"
proof -
  have "complete_row A indices k i new a b = A a b
        \<or> (A a b = 0 \<and> complete_row A indices k i new a b = 1)"
    if ab: "a < n" "b < n" for a b
  proof -
    have old: "new a b = A a b \<or> (A a b = 0 \<and> new a b = 1)"
      using assms(3) ab by (simp add: filled_from_iff)
    have sym: "A i a = A a i" using assms(1,2) ab by (simp add: symmetric_iff)
    show ?thesis
    proof (cases "b = i \<and> a \<in> set (neighbours indices k i) \<and> A i a = 0")
      case True
      then show ?thesis using sym by (simp add: complete_row_apply)
    next
      case False
      note F = this
      show ?thesis
      proof (cases "a = i \<and> b \<in> set (neighbours indices k i) \<and> A i b = 0")
        case True
        then show ?thesis by (simp add: complete_row_apply)
      next
        case False
        then have "complete_row A indices k i new a b = new a b"
          using F unfolding complete_row_apply by presburger
        then show ?thesis using old by simp
      qed
    qed
  qed
  then show ?thesis by (simp add: filled_from_iff)
qed

lemma fold_complete_row:
  assumes "\<forall>i \<in> set is. i < n"
  shows "symmetric n new \<Longrightarrow> symmetric n (fold (complete_row A indices k) is new)"
    and "symmetric n A \<Longrightarrow> filled_from n A new \<Longrightarrow>
         filled_from n A (fold (complete_row A indices k) is new)"
    and "\<forall>i \<in> set is. i \<notin> set (neighbours indices k i) \<Longrightarrow> zero_diagonal n new \<Longrightarrow>
         zero_diagonal n (fold (complete_row A indices k) is new)"
  using assms
proof (induction "is" arbitrary: new)
  case Nil
  { case 1 then show ?case by simp
  next case 2 then show ?case by simp
  next case 3 then show ?case by simp }
next
  case (Cons i "is")
  { case 1
    then show ?case using Cons.IH(1) [of "complete_row A indices k i new"]
      by (simp add: complete_row_symmetric)
  next
    case 2
    then show ?case using Cons.IH(2) [of "complete_row A indices k i new"]
      by (simp add: complete_row_filled)
  next
    case 3
    then show ?case using Cons.IH(3) [of "complete_row A indices k i new"]
      by (simp add: complete_row_zero_diagonal) }
qed

lemma complete_matrix_Inr:
  assumes "complete_matrix indices n A k = Inr B"
  shows "B = fold (complete_row A indices k) [0..<n] A"
  using assms by (simp add: complete_matrix_def split: if_splits)

lemma filled_from_refl: "filled_from n A A"
  by (simp add: filled_from_iff)

lemma complete_matrix_props:
  assumes "complete_matrix indices n A k = Inr B"
  shows "symmetric n A \<Longrightarrow> symmetric n B"
    and "symmetric n A \<Longrightarrow> filled_from n A B"
    and "zero_diagonal n A \<Longrightarrow> list_all (\<lambda>i. i \<notin> set (neighbours indices k i)) [0..<n] \<Longrightarrow>
         zero_diagonal n B"
  unfolding complete_matrix_Inr [OF assms]
  by (simp_all add: fold_complete_row filled_from_refl list_all_iff)

lemma completed_simMat_cases:
  "completed_simMat indices n A = (if 4 < n then complete_matrix indices n A 2 else Inr A)"
  by (simp add: completed_simMat_def)

subsection \<open>The diagonal after completion and along the cut\<close>

lemma diagonal_0_or_1_iff: "diagonal_0_or_1 n A \<longleftrightarrow> (\<forall>a < n. A a a = 0 \<or> A a a = 1)"
  by (auto simp: diagonal_0_or_1_def list_all_iff)

lemma diagonal_kept_iff:
  "diagonal_kept n B A \<longleftrightarrow> (\<forall>a < n. A a a = 0 \<or> A a a = - 1 \<or> A a a = B a a)"
  by (auto simp: diagonal_kept_def list_all_iff)

lemma diagonal_kept_refl: "diagonal_kept n B B"
  by (simp add: diagonal_kept_iff)

lemma diagonal_kept_merge_rows:
  "diagonal_kept n B A \<Longrightarrow> diagonal_kept n B (merge_rows A r c)"
  by (simp add: diagonal_kept_iff merge_rows_apply)

lemma diagonal_kept_trace:
  "list_all (\<lambda>s. diagonal_kept n B (simMat s)) (graph_cut_trace K (cut_init n B))"
  by (rule graph_cut_trace_invariant)
     (simp_all add: cut_init_def diagonal_kept_refl diagonal_kept_merge_rows)

lemma filled_diagonal:
  assumes "zero_diagonal n A" and "filled_from n A B"
  shows "diagonal_0_or_1 n B"
proof -
  have "B a a = 0 \<or> B a a = 1" if "a < n" for a
  proof -
    have "A a a = 0" using assms(1) that by (simp add: zero_diagonal_iff)
    moreover have "B a a = A a a \<or> (A a a = 0 \<and> B a a = 1)"
      using assms(2) that by (simp add: filled_from_iff)
    ultimately show ?thesis by auto
  qed
  then show ?thesis by (simp add: diagonal_0_or_1_iff)
qed

subsection \<open>Agglomeration keeps cannot-linked samples apart\<close>

lemma assign_all_length [simp]: "length (assign_all big g v) = length big"
  unfolding assign_all_def by (induction g arbitrary: big) auto












lemma agglomerate_loop_Cons:
  assumes "c2 \<noteq> []" and "hd c2 < length big" and "\<forall>x \<in> set c1. x < length big"
  shows "agglomerate_loop self ((c1, c2) # ms) big
         = agglomerate_loop self ms
             (if CL_within self (c1 @ c2) then big else assign_all big c1 (big ! hd c2))"
  using assms by (cases c2) (simp_all add: is_CL_violated_eq list_all_iff)






subsection \<open>Which exception an empty constraint table ends in\<close>

lemma linkage_loop_not_fit:
  "\<not> rows_fit (length clusMem) children \<Longrightarrow> linkage_loop clusMem children = Inl IndexError"
proof (induction children arbitrary: clusMem)
  case Nil
  then show ?case by simp
next
  case (Cons m rest)
  obtain g1 g2 where m: "m = (g1, g2)" by (cases m)
  show ?case
  proof (cases "g1 < length clusMem \<and> g2 < length clusMem")
    case True
    then have "\<not> rows_fit (length (clusMem @ [clusMem ! g1 @ clusMem ! g2])) rest"
      using Cons.prems m by simp
    then have "linkage_loop (clusMem @ [clusMem ! g1 @ clusMem ! g2]) rest = Inl IndexError"
      by (rule Cons.IH)
    then show ?thesis using True m by simp
  next
    case False
    then show ?thesis using m by auto
  qed
qed

lemma linkage_loop_fit:
  "rows_fit (length clusMem) children \<Longrightarrow> clusters_ok N clusMem \<Longrightarrow>
   \<exists>merges. linkage_loop clusMem children = Inr merges \<and> merges_in_range N merges"
proof (induction children arbitrary: clusMem)
  case Nil
  then show ?case by (simp add: merges_in_range_def)
next
  case (Cons m rest)
  obtain g1 g2 where m: "m = (g1, g2)" by (cases m)
  let ?c1 = "clusMem ! g1" and ?c2 = "clusMem ! g2"
  have g: "g1 < length clusMem" "g2 < length clusMem"
    and rest: "rows_fit (length (clusMem @ [?c1 @ ?c2])) rest"
    using Cons.prems(1) m by simp_all
  have c1: "?c1 \<noteq> []" "list_all (\<lambda>x. x < N) ?c1"
    using Cons.prems(2) g(1) by (simp_all add: clusters_ok_def list_all_length)
  have c2: "?c2 \<noteq> []" "list_all (\<lambda>x. x < N) ?c2"
    using Cons.prems(2) g(2) by (simp_all add: clusters_ok_def list_all_length)
  have "clusters_ok N (clusMem @ [?c1 @ ?c2])"
    using Cons.prems(2) c1 c2 by (simp add: clusters_ok_def)
  then obtain merges where
    ih: "linkage_loop (clusMem @ [?c1 @ ?c2]) rest = Inr merges" "merges_in_range N merges"
    using Cons.IH [OF rest] by blast
  have "linkage_loop clusMem (m # rest) = Inr ((?c1, ?c2) # merges)"
    using m g ih(1) by simp
  moreover have "merges_in_range N ((?c1, ?c2) # merges)"
    using ih(2) c1 c2 by (simp add: merges_in_range_def)
  ultimately show ?case by blast
qed

lemma agglomerate_loop_in_range:
  "merges_in_range N merges \<Longrightarrow> length big = N \<Longrightarrow>
   \<exists>big'. agglomerate_loop self merges big = Inr big' \<and> length big' = N"
proof (induction merges arbitrary: big)
  case Nil
  then show ?case by simp
next
  case (Cons m merges)
  obtain c1 c2 where m: "m = (c1, c2)" by (cases m)
  have c2: "c2 \<noteq> []" and r1: "list_all (\<lambda>x. x < N) c1" and r2: "list_all (\<lambda>x. x < N) c2"
    and rest: "merges_in_range N merges"
    using Cons.prems(1) m by (simp_all add: merges_in_range_def)
  have "hd c2 \<in> set c2" using c2 by simp
  then have hd: "hd c2 < length big" using r2 Cons.prems(2) by (simp add: list_all_iff)
  have all: "\<forall>x \<in> set c1. x < length big" using r1 Cons.prems(2) by (simp add: list_all_iff)
  let ?big = "if CL_within self (c1 @ c2) then big else assign_all big c1 (big ! hd c2)"
  have "length ?big = N" using Cons.prems(2) by simp
  then obtain big' where "agglomerate_loop self merges ?big = Inr big'" "length big' = N"
    using Cons.IH [OF rest] by blast
  then show ?case using agglomerate_loop_Cons [OF c2 hd all] m by simp
qed

lemma linkage_to_merges_cases:
  "(dendrogram_fits N children \<longrightarrow>
      (\<exists>merges. linkage_to_merges N children = Inr merges \<and> merges_in_range N merges))
   \<and> (\<not> dendrogram_fits N children \<longrightarrow> linkage_to_merges N children = Inl IndexError)"
proof (cases "dendrogram_fits N children")
  case True
  then have "rows_fit (length (map (\<lambda>x. [x]) [0..<N])) (take (N - 1) children)"
    and len: "\<not> length children < N - 1"
    by (simp_all add: dendrogram_fits_def)
  moreover have "clusters_ok N (map (\<lambda>x. [x]) [0..<N])"
    by (simp add: clusters_ok_def list_all_iff)
  ultimately obtain merges where
    "linkage_loop (map (\<lambda>x. [x]) [0..<N]) (take (N - 1) children) = Inr merges"
    "merges_in_range N merges"
    using linkage_loop_fit by blast
  then show ?thesis using True len by (simp add: linkage_to_merges_def)
next
  case False
  show ?thesis
  proof (cases "length children < N - 1")
    case True
    then show ?thesis using False by (simp add: linkage_to_merges_def)
  next
    case len: False
    then have "\<not> rows_fit (length (map (\<lambda>x. [x]) [0..<N])) (take (N - 1) children)"
      using False by (simp add: dendrogram_fits_def)
    then have "linkage_loop (map (\<lambda>x. [x]) [0..<N]) (take (N - 1) children) = Inl IndexError"
      by (rule linkage_loop_not_fit)
    then show ?thesis using False len by (simp add: linkage_to_merges_def)
  qed
qed

lemma fit_constrained_empty_exact:
  "fit_constrained (ConstrainedClustering_init []) K N children indices
     = (if dendrogram_fits N children then Inl ValueError else Inl IndexError)"
proof (cases "dendrogram_fits N children")
  case True
  then obtain merges where m: "linkage_to_merges N children = Inr merges" "merges_in_range N merges"
    using linkage_to_merges_cases by blast
  obtain big' where "agglomerate_loop (ConstrainedClustering_init []) merges [0..<N] = Inr big'"
    using agglomerate_loop_in_range [OF m(2), of "[0..<N]"] by auto
  then have "agglomerate_constrained_samples (ConstrainedClustering_init []) N children = Inr []"
    using m(1)
    by (simp add: agglomerate_constrained_samples_def init_empty translate_to_counting_numbers_def
        np_unique_def)
  then show ?thesis using True by (simp add: fit_constrained_def merge_nodes_no_labels)
next
  case False
  then have "linkage_to_merges N children = Inl IndexError"
    using linkage_to_merges_cases by blast
  then show ?thesis
    using False by (simp add: fit_constrained_def agglomerate_constrained_samples_def)
qed

section \<open>The properties\<close>

subsection \<open>C1: cannot-links and the final labels\<close>




subsection \<open>C2: a target above the number of nodes\<close>

text \<open>
  Claim C2 (with a target cluster count above the number of nodes the cut performs no
  merge). The count is compared with \<^verbatim>\<open>n_clusters\<close> only after a merge has been made, so
  on two nodes joined by one net must-link and a target of three clusters the loop still
  merges once and returns one cluster.
\<close>

theorem cut_merges_above_target:
  "graph_cut_approx (Some 3) 2 (of_rows [[0, 1], [1, 0]]) = Inr [0, 0]"
  by code_simp

subsection \<open>C3: counting constraints between groups\<close>

text \<open>
  Claim C3 (\<^verbatim>\<open>number_of_constraints\<close> is the number of edges between the groups and is
  symmetric). With the must-link rows \<open>(0, 2, 1)\<close> and \<open>(1, 2, 1)\<close> there are two edges
  between \<open>[0, 1]\<close> and \<open>[2]\<close>; the function counts the members of its second group that
  have a partner in the first, so it returns 1 one way round and 2 the other.
\<close>

theorem number_of_constraints_counts_members:
  "number_of_constraints (ConstrainedClustering_init [(0, 2, 1), (1, 2, 1)]) [0, 1] [2] 1 = Inr 1
   \<and> number_of_constraints (ConstrainedClustering_init [(0, 2, 1), (1, 2, 1)]) [2] [0, 1] 1 = Inr 2
   \<and> edges_between [(0, 2, 1), (1, 2, 1)] [0, 1] [2] 1 = 2"
  by code_simp

subsection \<open>C4: the constrained-sample set\<close>

text \<open>
  Claim C4 (the constrained-sample set holds exactly the sample indices of the first two
  columns). The constructor flattens the whole table, kind column included, so for the
  single must-link row \<open>(5, 7, 1)\<close> the stored set is \<open>[1, 5, 7]\<close>: sample 1 is in it
  although no constraint involves it.
\<close>

theorem constrainedSamps_holds_kind_column:
  "constrainedSamps (ConstrainedClustering_init [(5, 7, 1)]) = [1, 5, 7]"
  by code_simp

subsection \<open>C5: when the graph is completed\<close>

text \<open>
  Claim C5, as stated: completion is applied only above \<open>2k + 2 = 6\<close> nodes. The guard of
  \<^verbatim>\<open>merge_nodes\<close> is \<^verbatim>\<open>groupCenters.shape[0] > Nneigh*2\<close>, so with five nodes the matrix
  is completed: the all-zero matrix on five nodes, each node with its two cyclic successors
  as neighbours, reaches the cut with every off-diagonal entry set to 1.
\<close>

theorem completion_applies_to_five_nodes:
  "map_sum id (flatten 5)
     (completed_simMat (of_rows_nat [[0, 1, 2], [1, 2, 3], [2, 3, 4], [3, 4, 0], [4, 0, 1]]) 5
        (of_rows [[0, 0, 0, 0, 0], [0, 0, 0, 0, 0], [0, 0, 0, 0, 0], [0, 0, 0, 0, 0],
                  [0, 0, 0, 0, 0]]))
   = Inr [0, 1, 1, 1, 1,  1, 0, 1, 1, 1,  1, 1, 0, 1, 1,  1, 1, 1, 0, 1,  1, 1, 1, 1, 0]
   \<and> flatten 5 (of_rows [[0, 0, 0, 0, 0], [0, 0, 0, 0, 0], [0, 0, 0, 0, 0], [0, 0, 0, 0, 0],
                         [0, 0, 0, 0, 0]])
   = [0, 0, 0, 0, 0,  0, 0, 0, 0, 0,  0, 0, 0, 0, 0,  0, 0, 0, 0, 0,  0, 0, 0, 0, 0]"
  by code_simp

text \<open>
  Claim C5, amended: graph completion is applied to the node similarity matrix if and only
  if the number of nodes \<open>M\<close> satisfies \<open>M > 2k\<close> for the fixed \<open>k = 2\<close>, that is
  \<open>M > 4\<close>; for \<open>M \<le> 4\<close> the matrix reaches the cut step unchanged. When applied to a
  symmetric matrix (the matrix \<^verbatim>\<open>merge_nodes\<close> builds is symmetric), an entry is written
  only where the existing entry is zero, and it is written to 1; nonzero entries are never
  overwritten.
\<close>

theorem completion_guard_and_fill:
  assumes "symmetric M A"
  shows "completed_simMat indices M A
           = (if 4 < M then complete_matrix indices M A 2 else Inr A)
       \<and> (\<forall>B. completed_simMat indices M A = Inr B \<longrightarrow>
             (\<forall>a < M. \<forall>b < M. (A a b \<noteq> 0 \<longrightarrow> B a b = A a b)
                               \<and> (B a b \<noteq> A a b \<longrightarrow> A a b = 0 \<and> B a b = 1)))"
proof -
  have "filled_from M A B" if "completed_simMat indices M A = Inr B" for B
  proof (cases "4 < M")
    case True
    then have "complete_matrix indices M A 2 = Inr B"
      using that by (simp add: completed_simMat_cases)
    then show ?thesis using assms by (rule complete_matrix_props(2))
  next
    case False
    then have "B = A" using that by (simp add: completed_simMat_cases)
    then show ?thesis by (simp add: filled_from_refl)
  qed
  then have "\<forall>B. completed_simMat indices M A = Inr B \<longrightarrow>
             (\<forall>a < M. \<forall>b < M. (A a b \<noteq> 0 \<longrightarrow> B a b = A a b)
                               \<and> (B a b \<noteq> A a b \<longrightarrow> A a b = 0 \<and> B a b = 1))"
    unfolding filled_from_iff by blast
  then show ?thesis using completed_simMat_cases by blast
qed

theorem completion_guard_and_fill_witness:
  "symmetric 5 (of_rows [[0, - 2, 0, 0, 0], [- 2, 0, 0, 0, 0], [0, 0, 0, 0, 0], [0, 0, 0, 0, 0],
                          [0, 0, 0, 0, 0]])
   \<and> completed_simMat (of_rows_nat [[0, 1, 2], [1, 2, 3], [2, 3, 4], [3, 4, 0], [4, 0, 1]]) 5
        (of_rows [[0, - 2, 0, 0, 0], [- 2, 0, 0, 0, 0], [0, 0, 0, 0, 0], [0, 0, 0, 0, 0],
                  [0, 0, 0, 0, 0]])
     = complete_matrix (of_rows_nat [[0, 1, 2], [1, 2, 3], [2, 3, 4], [3, 4, 0], [4, 0, 1]]) 5
        (of_rows [[0, - 2, 0, 0, 0], [- 2, 0, 0, 0, 0], [0, 0, 0, 0, 0], [0, 0, 0, 0, 0],
                  [0, 0, 0, 0, 0]]) 2
   \<and> map_sum id (flatten 5)
        (completed_simMat (of_rows_nat [[0, 1, 2], [1, 2, 3], [2, 3, 4], [3, 4, 0], [4, 0, 1]]) 5
           (of_rows [[0, - 2, 0, 0, 0], [- 2, 0, 0, 0, 0], [0, 0, 0, 0, 0], [0, 0, 0, 0, 0],
                     [0, 0, 0, 0, 0]]))
     = Inr [0, - 2, 1, 1, 1,  - 2, 0, 1, 1, 1,  1, 1, 0, 1, 1,  1, 1, 1, 0, 1,  1, 1, 1, 1, 0]"
proof -
  have h: "symmetric 5 (of_rows [[0, - 2, 0, 0, 0], [- 2, 0, 0, 0, 0], [0, 0, 0, 0, 0],
                                 [0, 0, 0, 0, 0], [0, 0, 0, 0, 0]])"
    by code_simp
  have e: "map_sum id (flatten 5)
        (completed_simMat (of_rows_nat [[0, 1, 2], [1, 2, 3], [2, 3, 4], [3, 4, 0], [4, 0, 1]]) 5
           (of_rows [[0, - 2, 0, 0, 0], [- 2, 0, 0, 0, 0], [0, 0, 0, 0, 0], [0, 0, 0, 0, 0],
                     [0, 0, 0, 0, 0]]))
     = Inr [0, - 2, 1, 1, 1,  - 2, 0, 1, 1, 1,  1, 1, 0, 1, 1,  1, 1, 1, 0, 1,  1, 1, 1, 1, 0]"
    by code_simp
  have "(4::nat) < 5" by simp
  with completion_guard_and_fill [OF h, of "of_rows_nat [[0, 1, 2], [1, 2, 3], [2, 3, 4], [3, 4, 0], [4, 0, 1]]"]
  have "completed_simMat (of_rows_nat [[0, 1, 2], [1, 2, 3], [2, 3, 4], [3, 4, 0], [4, 0, 1]]) 5
        (of_rows [[0, - 2, 0, 0, 0], [- 2, 0, 0, 0, 0], [0, 0, 0, 0, 0], [0, 0, 0, 0, 0],
                  [0, 0, 0, 0, 0]])
     = complete_matrix (of_rows_nat [[0, 1, 2], [1, 2, 3], [2, 3, 4], [3, 4, 0], [4, 0, 1]]) 5
        (of_rows [[0, - 2, 0, 0, 0], [- 2, 0, 0, 0, 0], [0, 0, 0, 0, 0], [0, 0, 0, 0, 0],
                  [0, 0, 0, 0, 0]]) 2"
    by (simp only: if_True)
  then show ?thesis using h e by (simp only: simp_thms)
qed

subsection \<open>C6: renumbering after agglomeration\<close>

text \<open>
  Claim C6, as stated: the renumbering follows the order of first appearance. It does
  not: with a cannot-link between samples 0 and 1 and the dendrogram
  \<open>[(0, 2), (1, 3)]\<close> on three samples, the restricted label array is \<open>[2, 1]\<close>; it is
  renumbered to \<open>[1, 0]\<close>, where the order of first appearance gives \<open>[0, 1]\<close>.
\<close>

theorem renumbering_not_by_first_appearance:
  "agglomerate_constrained_samples (ConstrainedClustering_init [(0, 1, 0)]) 3 [(0, 2), (1, 3)]
     = Inr [1, 0]
   \<and> translate_to_counting_numbers [2, 1] = [1, 0]
   \<and> number_by_first_appearance [2, 1] = [0, 1]"
  by code_simp

text \<open>
  Claim C6, amended: after all merges the label map restricted to the constrained samples
  is renumbered onto the dense range from 0 to the number of distinct surviving labels,
  and the new number of an old label is its rank among the distinct old labels in
  ascending order (the number of distinct old labels below it).
\<close>

theorem renumbering_by_rank:
  assumes "agglomerate_constrained_samples self N children = Inr labelSet"
  shows "\<exists>allMerges bigLabelSet restricted.
           linkage_to_merges N children = Inr allMerges
         \<and> agglomerate_loop self allMerges [0..<N] = Inr bigLabelSet
         \<and> restricted = map (\<lambda>x. bigLabelSet ! x) (constrainedSamps self)
         \<and> labelSet = map (\<lambda>l. card {y \<in> set restricted. y < l}) restricted
         \<and> set labelSet = {0..<card (set restricted)}"
proof -
  from assms obtain allMerges bigLabelSet where
    1: "linkage_to_merges N children = Inr allMerges"
    and 2: "agglomerate_loop self allMerges [0..<N] = Inr bigLabelSet"
    and 3: "labelSet = translate_to_counting_numbers (map (\<lambda>x. bigLabelSet ! x) (constrainedSamps self))"
    by (rule agglomerate_constrained_samples_Inr)
  let ?r = "map (\<lambda>x. bigLabelSet ! x) (constrainedSamps self)"
  have "labelSet = map (\<lambda>l. card {y \<in> set ?r. y < l}) ?r"
    using 3 translate_rank [of ?r] by simp
  moreover have "set labelSet = {0..<card (set ?r)}"
    using 3 set_translate [of ?r] by simp
  ultimately show ?thesis using 1 2 by blast
qed

theorem renumbering_by_rank_witness:
  "agglomerate_constrained_samples (ConstrainedClustering_init [(0, 1, 0)]) 3 [(0, 2), (1, 3)]
     = Inr [1, 0]
   \<and> (\<exists>allMerges bigLabelSet restricted.
           linkage_to_merges 3 [(0, 2), (1, 3)] = Inr allMerges
         \<and> agglomerate_loop (ConstrainedClustering_init [(0, 1, 0)]) allMerges [0..<3] = Inr bigLabelSet
         \<and> restricted = map (\<lambda>x. bigLabelSet ! x) (constrainedSamps (ConstrainedClustering_init [(0, 1, 0)]))
         \<and> [1, 0] = map (\<lambda>l. card {y \<in> set restricted. y < l}) restricted
         \<and> set [1, 0] = {0..<card (set restricted)})"
proof -
  have h: "agglomerate_constrained_samples (ConstrainedClustering_init [(0, 1, 0)]) 3 [(0, 2), (1, 3)]
     = Inr [1, 0]"
    by code_simp
  show ?thesis using h renumbering_by_rank [OF h] by blast
qed

subsection \<open>C7: termination and monotone reduction of the greedy cut\<close>

text \<open>
  Claim C7: the greedy cut loop terminates on every matrix (a run on \<open>n\<close> nodes makes at
  most \<open>n + 1\<close> passes, so its record has at most \<open>n + 2\<close> states, and
  \<^verbatim>\<open>graph_cut_approx\<close> returns the labels of the last one, or raises when there is no
  node); no pass increases the number of distinct values in \<^verbatim>\<open>newLabels\<close>; and at most
  \<open>n - 1\<close> passes change \<^verbatim>\<open>newLabels\<close>.
\<close>

theorem greedy_cut_terminates_monotone:
  "length (graph_cut_trace n_clusters (cut_init n A)) \<le> n + 2
   \<and> graph_cut_approx n_clusters n A
       = (if n = 0 then Inl ValueError
          else Inr (newLabels (last (graph_cut_trace n_clusters (cut_init n A)))))
   \<and> sorted_wrt (\<lambda>s s'. Ngroups s' \<le> Ngroups s) (graph_cut_trace n_clusters (cut_init n A))
   \<and> merge_steps (graph_cut_trace n_clusters (cut_init n A)) \<le> n - 1"
proof -
  let ?s = "cut_init n A"
  have "length (graph_cut_trace n_clusters ?s) \<le> live_count ?s + 2"
    by (rule length_graph_cut_trace)
  moreover have "live_count ?s \<le> n"
    using live_count_le [of ?s] by (simp add: cut_init_def)
  ultimately have 1: "length (graph_cut_trace n_clusters ?s) \<le> n + 2" by simp
  have "merge_steps (graph_cut_trace n_clusters ?s) \<le> Ngroups ?s - 1"
    by (rule merge_steps_trace) (simp add: cut_init_def)
  moreover have "Ngroups ?s = n" by (simp add: Ngroups_card cut_init_def)
  ultimately have 2: "merge_steps (graph_cut_trace n_clusters ?s) \<le> n - 1" by simp
  show ?thesis using 1 2 graph_cut_approx_last Ngroups_sorted by simp
qed

subsection \<open>C8: symmetry and diagonal of the similarity matrix\<close>

text \<open>
  Claim C8, as stated: at every point of a run, also after every merge step of the greedy
  cut, the similarity matrix is symmetric with a zero diagonal. A merge step writes \<open>-1\<close>
  over the whole row and column of the node it merges away, the diagonal entry included.
  For the constraints must-link \<open>(0, 2)\<close>, \<open>(1, 3)\<close> and cannot-link \<open>(0, 3)\<close> with the
  groups \<open>{0, 1}\<close> and \<open>{2, 3}\<close> the built matrix is \<open>[[0, 1], [1, 0]]\<close>; after the first
  merge step it is \<open>[[-1, -1], [-1, 0]]\<close>.
\<close>

theorem merge_step_breaks_zero_diagonal:
  "flatten 2 (projr (build_simMat (ConstrainedClustering_init [(0, 2, 1), (1, 3, 1), (0, 3, 0)])
                       4 [0, 0, 1, 1]))
     = [0, 1, 1, 0]
   \<and> flatten 2 (simMat (graph_cut_trace None (cut_init 2 (of_rows [[0, 1], [1, 0]])) ! 1))
     = [- 1, - 1, - 1, 0]
   \<and> simMat (graph_cut_trace None (cut_init 2 (of_rows [[0, 1], [1, 0]])) ! 1) 0 0 = - 1"
  by code_simp

text \<open>
  Claim C8, amended: the similarity matrix is symmetric at every point of a run: after the
  node graph is built, after graph completion and after every merge step of the greedy
  cut. Its diagonal is zero after the node graph is built. After graph completion every
  diagonal entry is 0 or 1, and all are 0 when completion is not applied (at most four
  nodes) or the neighbour service returns no node among its own neighbours. After every
  merge step every diagonal entry is 0, \<open>-1\<close> (the node has been merged away) or the entry
  it was when the cut began; so every diagonal entry is 0 or \<open>-1\<close> after every merge step
  of a run whose diagonal was zero when the cut began.
\<close>

theorem similarity_matrix_symmetric:
  assumes "build_simMat self N labelSet = Inr A"
    and "M = length (np_unique labelSet)"
    and "completed_simMat indices M A = Inr B"
  shows "symmetric M A \<and> zero_diagonal M A
       \<and> symmetric M B \<and> diagonal_0_or_1 M B
       \<and> (M \<le> 4 \<or> list_all (\<lambda>i. i \<notin> set (neighbours indices 2 i)) [0..<M]
            \<longrightarrow> zero_diagonal M B)
       \<and> list_all (\<lambda>s. symmetric M (simMat s)) (graph_cut_trace n_clusters (cut_init M B))
       \<and> list_all (\<lambda>s. diagonal_kept M B (simMat s)) (graph_cut_trace n_clusters (cut_init M B))
       \<and> (zero_diagonal M B \<longrightarrow>
            list_all (\<lambda>s. diagonal_0_or_minus1 M (simMat s))
              (graph_cut_trace n_clusters (cut_init M B)))"
proof -
  have A: "symmetric M A" "zero_diagonal M A"
    using build_simMat_symmetric [OF assms(1)] by simp_all
  have B: "symmetric M B \<and> filled_from M A B"
  proof (cases "4 < M")
    case True
    then have "complete_matrix indices M A 2 = Inr B"
      using assms(3) by (simp add: completed_simMat_cases)
    then show ?thesis using A(1) complete_matrix_props(1,2) by blast
  next
    case False
    then show ?thesis using assms(3) A(1) by (simp add: completed_simMat_cases filled_from_refl)
  qed
  have B01: "diagonal_0_or_1 M B" using A(2) B by (blast intro: filled_diagonal)
  have D: "zero_diagonal M B"
    if "M \<le> 4 \<or> list_all (\<lambda>i. i \<notin> set (neighbours indices 2 i)) [0..<M]"
  proof (cases "4 < M")
    case True
    then have "complete_matrix indices M A 2 = Inr B"
      using assms(3) by (simp add: completed_simMat_cases)
    moreover have "list_all (\<lambda>i. i \<notin> set (neighbours indices 2 i)) [0..<M]"
      using that True by simp
    ultimately show ?thesis using A(2) complete_matrix_props(3) by blast
  next
    case False
    then show ?thesis using assms(3) A(2) by (simp add: completed_simMat_cases)
  qed
  have T: "list_all (\<lambda>s. symmetric M (simMat s)) (graph_cut_trace n_clusters (cut_init M B))"
    using B by (intro symmetric_trace) simp
  have K: "list_all (\<lambda>s. diagonal_kept M B (simMat s)) (graph_cut_trace n_clusters (cut_init M B))"
    by (rule diagonal_kept_trace)
  have U: "list_all (\<lambda>s. diagonal_0_or_minus1 M (simMat s))
              (graph_cut_trace n_clusters (cut_init M B))" if "zero_diagonal M B"
    using that by (intro diagonal_trace zero_diagonal_imp)
  show ?thesis using A B B01 D T K U by blast
qed


theorem similarity_matrix_symmetric_witness:
  "agglomerate_constrained_samples
     (ConstrainedClustering_init [(0, 1, 0), (2, 3, 0), (2, 4, 1)]) 5
     [(0, 1), (2, 3), (5, 6), (4, 7)]
     = Inr [0, 1, 2, 3, 4]
   \<and> flatten 5 (projr (build_simMat
                (ConstrainedClustering_init [(0, 1, 0), (2, 3, 0), (2, 4, 1)]) 5 [0, 1, 2, 3, 4]))
     = [0, - 1, 0, 0, 0,  - 1, 0, 0, 0, 0,  0, 0, 0, - 1, 1,  0, 0, - 1, 0, 0,  0, 0, 1, 0, 0]
   \<and> flatten 5 (projr (completed_simMat
                (of_rows_nat [[0, 1, 2], [1, 2, 3], [2, 3, 4], [3, 4, 0], [4, 0, 1]]) 5
                (projr (build_simMat
                   (ConstrainedClustering_init [(0, 1, 0), (2, 3, 0), (2, 4, 1)]) 5
                   [0, 1, 2, 3, 4]))))
     = [0, - 1, 1, 1, 1,  - 1, 0, 1, 1, 1,  1, 1, 0, - 1, 1,  1, 1, - 1, 0, 1,  1, 1, 1, 1, 0]
   \<and> symmetric 5 (projr (build_simMat
                (ConstrainedClustering_init [(0, 1, 0), (2, 3, 0), (2, 4, 1)]) 5 [0, 1, 2, 3, 4]))
   \<and> zero_diagonal 5 (projr (build_simMat
                (ConstrainedClustering_init [(0, 1, 0), (2, 3, 0), (2, 4, 1)]) 5 [0, 1, 2, 3, 4]))
   \<and> symmetric 5 (projr (completed_simMat
                (of_rows_nat [[0, 1, 2], [1, 2, 3], [2, 3, 4], [3, 4, 0], [4, 0, 1]]) 5
                (projr (build_simMat
                   (ConstrainedClustering_init [(0, 1, 0), (2, 3, 0), (2, 4, 1)]) 5
                   [0, 1, 2, 3, 4]))))
   \<and> zero_diagonal 5 (projr (completed_simMat
                (of_rows_nat [[0, 1, 2], [1, 2, 3], [2, 3, 4], [3, 4, 0], [4, 0, 1]]) 5
                (projr (build_simMat
                   (ConstrainedClustering_init [(0, 1, 0), (2, 3, 0), (2, 4, 1)]) 5
                   [0, 1, 2, 3, 4]))))
   \<and> list_all (\<lambda>s. symmetric 5 (simMat s))
        (graph_cut_trace None
           (cut_init 5
              (projr (completed_simMat
                 (of_rows_nat [[0, 1, 2], [1, 2, 3], [2, 3, 4], [3, 4, 0], [4, 0, 1]]) 5
                 (projr (build_simMat
                    (ConstrainedClustering_init [(0, 1, 0), (2, 3, 0), (2, 4, 1)]) 5
                    [0, 1, 2, 3, 4]))))))
   \<and> list_all (\<lambda>s. diagonal_0_or_minus1 5 (simMat s))
        (graph_cut_trace None
           (cut_init 5
              (projr (completed_simMat
                 (of_rows_nat [[0, 1, 2], [1, 2, 3], [2, 3, 4], [3, 4, 0], [4, 0, 1]]) 5
                 (projr (build_simMat
                    (ConstrainedClustering_init [(0, 1, 0), (2, 3, 0), (2, 4, 1)]) 5
                    [0, 1, 2, 3, 4]))))))
   \<and> map newLabels
        (graph_cut_trace None
           (cut_init 5
              (projr (completed_simMat
                 (of_rows_nat [[0, 1, 2], [1, 2, 3], [2, 3, 4], [3, 4, 0], [4, 0, 1]]) 5
                 (projr (build_simMat
                    (ConstrainedClustering_init [(0, 1, 0), (2, 3, 0), (2, 4, 1)]) 5
                    [0, 1, 2, 3, 4]))))))
     = [[0, 1, 2, 3, 4], [0, 1, 0, 3, 4], [0, 1, 0, 3, 0], [0, 1, 0, 1, 0], [1, 1, 1, 1, 1],
        [1, 1, 1, 1, 1]]"
proof -
  let ?self = "ConstrainedClustering_init [(0, 1, 0), (2, 3, 0), (2, 4, 1)]"
  let ?idx = "of_rows_nat [[0, 1, 2], [1, 2, 3], [2, 3, 4], [3, 4, 0], [4, 0, 1]]"
  let ?b = "build_simMat ?self 5 [0, 1, 2, 3, 4]"
  let ?c = "completed_simMat ?idx 5 (projr ?b)"
  have run: "agglomerate_constrained_samples ?self 5 [(0, 1), (2, 3), (5, 6), (4, 7)]
     = Inr [0, 1, 2, 3, 4]" by code_simp
  have fb: "flatten 5 (projr ?b)
     = [0, - 1, 0, 0, 0,  - 1, 0, 0, 0, 0,  0, 0, 0, - 1, 1,  0, 0, - 1, 0, 0,  0, 0, 1, 0, 0]"
    by code_simp
  have fc: "flatten 5 (projr ?c)
     = [0, - 1, 1, 1, 1,  - 1, 0, 1, 1, 1,  1, 1, 0, - 1, 1,  1, 1, - 1, 0, 1,  1, 1, 1, 1, 0]"
    by code_simp
  have tr: "map newLabels (graph_cut_trace None (cut_init 5 (projr ?c)))
     = [[0, 1, 2, 3, 4], [0, 1, 0, 3, 4], [0, 1, 0, 3, 0], [0, 1, 0, 1, 0], [1, 1, 1, 1, 1],
        [1, 1, 1, 1, 1]]" by code_simp
  have "\<not> isl ?b" by code_simp
  then have h1: "?b = Inr (projr ?b)" by simp
  have h2: "5 = length (np_unique [0, 1, 2, 3, 4::nat])" by code_simp
  have "\<not> isl ?c" by code_simp
  then have h3: "?c = Inr (projr ?c)" by simp
  have nb: "list_all (\<lambda>i. i \<notin> set (neighbours ?idx 2 i)) [0..<5]" by code_simp
  from similarity_matrix_symmetric [OF h1 h2 h3, of None] nb
  have "symmetric 5 (projr ?b) \<and> zero_diagonal 5 (projr ?b)
      \<and> symmetric 5 (projr ?c) \<and> zero_diagonal 5 (projr ?c)
      \<and> list_all (\<lambda>s. symmetric 5 (simMat s)) (graph_cut_trace None (cut_init 5 (projr ?c)))
      \<and> list_all (\<lambda>s. diagonal_0_or_minus1 5 (simMat s))
           (graph_cut_trace None (cut_init 5 (projr ?c)))"
    by blast
  with run fb fc tr show ?thesis by blast
qed

text \<open>
  Why the zero diagonal after completion needs the neighbour service to leave a node out
  of its own neighbours: when node 0 comes back as its own neighbour, completion writes 1
  at \<open>(0, 0)\<close>, and a merge of two other nodes leaves it there.
\<close>

lemma self_neighbour_writes_diagonal:
  "map (\<lambda>s. (newLabels s, simMat s 0 0))
     (take 2 (graph_cut_trace None
        (cut_init 5
           (projr (completed_simMat
              (of_rows_nat [[1, 0, 2], [1, 2, 3], [2, 3, 4], [3, 4, 0], [4, 0, 1]]) 5
              (of_rows [[0, 0, 0, 0, 0], [0, 0, 0, 0, 0], [0, 0, 0, 2, 0], [0, 0, 2, 0, 0],
                        [0, 0, 0, 0, 0]]))))))
   = [([0, 1, 2, 3, 4], 1), ([0, 1, 2, 2, 4], 1)]"
  by code_simp


subsection \<open>C9: an empty constraint table\<close>

text \<open>
  Claim C9, as stated: an empty constraint table makes construction fail with
  \<open>EmptyConstraintSetError\<close>. The source has no such exception and the constructor raises
  nothing: on the empty table it returns a store with no pairs and no constrained samples.
  The run fails later, in \<^verbatim>\<open>fit_constrained\<close>, with a \<open>ValueError\<close>.
\<close>

theorem empty_table_constructs:
  "ConstrainedClustering_init [] = \<lparr> ML_pairs = [], CL_pairs = [], constrainedSamps = [] \<rparr>
   \<and> fit_constrained (ConstrainedClustering_init []) (Some 2) 4 [(0, 1), (2, 3), (4, 5)] (of_rows_nat [])
       = Inl ValueError"
  by code_simp

text \<open>
  Claim C9, amended: on an empty constraint table construction succeeds, with empty
  must-link and cannot-link blocks and an empty constrained-sample set; no label output
  is produced, because \<^verbatim>\<open>fit_constrained\<close> then raises, whatever the number of clusters
  asked for and whatever the neighbour service returns. It raises an \<open>IndexError\<close> exactly
  when the dendrogram does not fit the \<open>N\<close> samples, that is when it has fewer than
  \<open>N - 1\<close> rows or one of its first \<open>N - 1\<close> rows, row \<open>i\<close> say, names a cluster index that
  is not below \<open>N + i\<close>; and it raises a \<open>ValueError\<close>, from the maximum of the empty
  similarity matrix, in every other case.
\<close>

theorem empty_table_fails_in_fit:
  "ConstrainedClustering_init [] = \<lparr> ML_pairs = [], CL_pairs = [], constrainedSamps = [] \<rparr>
   \<and> fit_constrained (ConstrainedClustering_init []) n_clusters N children indices
       = (if dendrogram_fits N children then Inl ValueError else Inl IndexError)"
  using init_empty fit_constrained_empty_exact by simp

text \<open>
  Both exceptions occur: four samples with a dendrogram whose second row names cluster 9,
  and with a dendrogram of two rows only, end in the \<open>IndexError\<close>.
\<close>

lemma empty_table_index_error:
  "\<not> dendrogram_fits 4 [(0, 1), (2, 9), (4, 5)]
   \<and> fit_constrained (ConstrainedClustering_init []) (Some 2) 4 [(0, 1), (2, 9), (4, 5)]
        (of_rows_nat []) = Inl IndexError
   \<and> \<not> dendrogram_fits 4 [(0, 1), (2, 3)]
   \<and> fit_constrained (ConstrainedClustering_init []) (Some 2) 4 [(0, 1), (2, 3)]
        (of_rows_nat []) = Inl IndexError
   \<and> dendrogram_fits 4 [(0, 1), (2, 3), (4, 5)]"
  by code_simp

subsection \<open>C10: the relabelling is idempotent\<close>

text \<open>
  Claim C10: the relabelling array returned by \<^verbatim>\<open>graph_cut_approx\<close> is idempotent as a map
  on node indices, and so the in-place, label by label rewriting of \<^verbatim>\<open>translate_labels\<close>
  gives what applying the map once to every original label gives (for a label set whose
  labels are node indices, as the label set of the pipeline is).
\<close>

theorem newLabels_idempotent:
  assumes "graph_cut_approx n_clusters n A = Inr L"
  shows "length L = n
       \<and> (\<forall>i < n. L ! i < n \<and> L ! (L ! i) = L ! i)
       \<and> (\<forall>labelSet. (\<forall>x \<in> set labelSet. x < n) \<longrightarrow>
             translate_labels labelSet L = Inr (map (\<lambda>x. L ! x) labelSet))"
proof -
  have len: "length L = n" and idem: "idempotent_labels L"
    using graph_cut_approx_idempotent [OF assms] by simp_all
  have "\<forall>i < n. L ! i < n \<and> L ! (L ! i) = L ! i"
    using idempotent_labels_nth [OF idem] len by simp
  moreover have "translate_labels labelSet L = Inr (map (\<lambda>x. L ! x) labelSet)"
    if "\<forall>x \<in> set labelSet. x < n" for labelSet
    using translate_labels_map [OF idem, of labelSet] that len by simp
  ultimately show ?thesis using len by blast
qed

theorem newLabels_idempotent_witness:
  "graph_cut_approx None 3 (of_rows [[0, 2, 0], [2, 0, - 1], [0, - 1, 0]]) = Inr [0, 0, 2]
   \<and> [0, 0, 2] ! ([0, 0, 2] ! 1) = [0, 0, 2] ! (1::nat)
   \<and> translate_labels [0, 1, 2, 1, 0] [0, 0, 2] = Inr (map (\<lambda>x. [0, 0, 2] ! x) [0, 1, 2, 1, 0])"
proof -
  have h: "graph_cut_approx None 3 (of_rows [[0, 2, 0], [2, 0, - 1], [0, - 1, 0]]) = Inr [0, 0, 2]"
    by code_simp
  have m: "\<forall>x \<in> set [0, 1, 2, 1, 0::nat]. x < 3" by simp
  from newLabels_idempotent [OF h] m show ?thesis using h by simp
qed

end
